theory Spec2Isabelle
  imports Main "HOL-Library.Word"
begin

section \<open>Constants, errors and the input stream\<close>

text \<open>
  The embedding follows \<^verbatim>\<open>include/bioparser/bioparser.hpp\<close>.  Bytes are \<^typ>\<open>char\<close>,
  the read buffer and the storage vector are \<^typ>\<open>char list\<close>.
\<close>

definition kBufferSize :: nat where
  "kBufferSize = 64 * 1024"

definition kSSS :: nat where
  "kSSS = 1024"

definition kMSS :: nat where
  "kMSS = 8 * 1024 * 1024"

definition kLSS :: nat where
  "kLSS = 512 * 1024 * 1024"

text \<open>
  The three \<^verbatim>\<open>exit(1)\<close> paths of a parse call are \<open>ChunkTooSmall\<close> ("too small chunk
  size!") and \<open>InvalidFormat\<close> ("invalid file format!"); \<open>OutOfBounds\<close> stands for a
  write through \<^verbatim>\<open>name\<close>, \<^verbatim>\<open>data\<close>, \<^verbatim>\<open>quality\<close> or \<^verbatim>\<open>line\<close> at an index that is
  not inside \<^verbatim>\<open>storage_\<close>, which the C++ code performs unchecked.
\<close>

datatype error = ChunkTooSmall | InvalidFormat | OutOfBounds

text \<open>
  A \<^verbatim>\<open>FILE*\<close> opened for reading: the bytes of the file, the position indicator and
  the end-of-file indicator.
\<close>

record stream =
  content :: "char list"
  pos :: nat
  eof :: bool

text \<open>
  \<^verbatim>\<open>fread(buffer_.data(), 1, n, f)\<close>: the bytes delivered, and the stream afterwards.
  The end-of-file indicator is set only when fewer than \<open>n\<close> bytes were available; a
  read that ends exactly at the last byte leaves it clear.
\<close>

definition fread_data :: "nat \<Rightarrow> stream \<Rightarrow> char list" where
  "fread_data n f = take n (drop (pos f) (content f))"

definition fread_file :: "nat \<Rightarrow> stream \<Rightarrow> stream" where
  "fread_file n f =
     f\<lparr>pos := pos f + length (fread_data n f),
       eof := eof f \<or> length (fread_data n f) < n\<rparr>"

text \<open>
  \<^verbatim>\<open>fseek(f, -d, SEEK_CUR)\<close> and \<^verbatim>\<open>fseek(f, 0, SEEK_SET)\<close>.  A successful seek clears
  the end-of-file indicator; a seek before the start of the file fails and leaves the
  stream as it was (the callers ignore the return value).
\<close>

definition fseek_back :: "nat \<Rightarrow> stream \<Rightarrow> stream" where
  "fseek_back d f = (if d \<le> pos f then f\<lparr>pos := pos f - d, eof := False\<rparr> else f)"

definition fseek_start :: "stream \<Rightarrow> stream" where
  "fseek_start f = f\<lparr>pos := 0, eof := False\<rparr>"

text \<open>The bytes of the file from the position indicator on.\<close>

definition remaining :: "stream \<Rightarrow> char list" where
  "remaining f = drop (pos f) (content f)"

section \<open>Storage\<close>

text \<open>\<^verbatim>\<open>isspace\<close> in the C locale.\<close>

definition isspace :: "char \<Rightarrow> bool" where
  "isspace c \<longleftrightarrow>
     c = CHR 0x20 \<or> c = CHR 0x09 \<or> c = CHR 0x0A \<or> c = CHR 0x0B \<or> c = CHR 0x0C \<or> c = CHR 0x0D"

text \<open>An indexed write into \<^verbatim>\<open>storage_\<close>; outside the vector it is \<open>OutOfBounds\<close>.\<close>

definition store_write :: "nat \<Rightarrow> char \<Rightarrow> char list \<Rightarrow> error + char list" where
  "store_write i c st = (if i < length st then Inr (st[i := c]) else Inl OutOfBounds)"

text \<open>\<^verbatim>\<open>storage_.resize(n, 0)\<close>: existing bytes are kept, new ones are zero.\<close>

definition resize :: "nat \<Rightarrow> char list \<Rightarrow> char list" where
  "resize n st = take n st @ replicate (n - length st) (CHR 0x00)"

text \<open>The \<open>n\<close> bytes at offset \<open>off\<close>, as a record constructor copies them from a span.\<close>

definition region :: "char list \<Rightarrow> nat \<Rightarrow> nat \<Rightarrow> char list" where
  "region st off n = map (\<lambda>i. st ! i) [off..<off + n]"

text \<open>
  \<^verbatim>\<open>while (n > 0 && isspace(p[n - 1])) --n;\<close> for the span that starts at offset \<open>off\<close>.
\<close>

fun rtrim :: "char list \<Rightarrow> nat \<Rightarrow> nat \<Rightarrow> nat" where
  "rtrim st off 0 = 0"
| "rtrim st off (Suc n) = (if isspace (st ! (off + n)) then rtrim st off n else Suc n)"

section \<open>The read loop shared by the four parsers\<close>

text \<open>
  The locals every \<^verbatim>\<open>parse_objects\<close> body declares, together with the storage vector
  (\<open>storage\<close> is \<^verbatim>\<open>this->storage_\<close> during the call) and the destination vector they
  work on.  \<^verbatim>\<open>last_object_id\<close> is the constant 0, so
  \<^verbatim>\<open>last_object_id == num_objects\<close> is \<open>num_objects = 0\<close>.  The 64-bit counters are
  natural numbers: they are bounded by the number of bytes read, and a file offset is a
  \<^verbatim>\<open>long\<close>.
\<close>

record 'r locals =
  storage :: "char list"
  dst :: "'r list"
  current_bytes :: nat
  num_objects :: nat

text \<open>
  The \<^verbatim>\<open>for (i = 0; i < read_bytes; ++i)\<close> loop over the buffer.  The per-byte body
  \<open>step\<close> receives the truth value of \<^verbatim>\<open>is_end && i == read_bytes - 1\<close>.
\<close>

fun scan :: "(bool \<Rightarrow> char \<Rightarrow> 's \<Rightarrow> error + 's) \<Rightarrow> bool \<Rightarrow> char list \<Rightarrow> 's \<Rightarrow> error + 's" where
  "scan step is_end [] s = Inr s"
| "scan step is_end (c # cs) s =
     (case step (is_end \<and> cs = []) c s of
        Inl e \<Rightarrow> Inl e
      | Inr s' \<Rightarrow> scan step is_end cs s')"

text \<open>
  One pass of \<^verbatim>\<open>while (!is_end) { ... }\<close> from the \<^verbatim>\<open>fread\<close> on, identical in the four
  parsers apart from the per-byte body.  The result is the returned \<^verbatim>\<open>status\<close>, the
  stream and the locals.
\<close>

function parse_loop ::
  "(bool \<Rightarrow> char \<Rightarrow> ('r, 'm) locals_scheme \<Rightarrow> error + ('r, 'm) locals_scheme) \<Rightarrow> nat \<Rightarrow>
   stream \<Rightarrow> nat \<Rightarrow> ('r, 'm) locals_scheme \<Rightarrow> error + (bool \<times> stream \<times> ('r, 'm) locals_scheme)"
where
  "parse_loop step max_bytes f total_bytes s =
     (let buffer = fread_data kBufferSize f;
          f1 = fread_file kBufferSize f;
          read_bytes = length buffer;
          is_end = eof f1;
          total = total_bytes + read_bytes
      in if max_bytes \<noteq> 0 \<and> total > max_bytes then
           (if num_objects s = 0 then Inl ChunkTooSmall
            else Inr (True, fseek_back (current_bytes s + read_bytes) f1, s))
         else
           (case scan step is_end buffer s of
              Inl e \<Rightarrow> Inl e
            | Inr s' \<Rightarrow>
                if is_end then Inr (False, f1, s')
                else parse_loop step max_bytes f1 total s'))"
  by pat_completeness auto
termination
proof (relation "measure (\<lambda>(step, max_bytes, f, total_bytes, s). length (content f) - pos f)")
  show "wf (measure (\<lambda>(step, max_bytes, f, total_bytes, s). length (content f) - pos f))"
    by simp
next
  fix step :: "bool \<Rightarrow> char \<Rightarrow> ('r, 'm) locals_scheme \<Rightarrow> error + ('r, 'm) locals_scheme"
  fix max_bytes total_bytes :: nat and f f1 :: stream and s x2 :: "('r, 'm) locals_scheme"
  fix buffer read_bytes is_end total
  assume "buffer = fread_data kBufferSize f" "f1 = fread_file kBufferSize f"
    "is_end = eof f1" "\<not> is_end"
  then have "length (fread_data kBufferSize f) = kBufferSize"
    by (auto simp: fread_file_def fread_data_def)
  then have "pos f + kBufferSize \<le> length (content f)"
    by (auto simp: fread_data_def kBufferSize_def)
  then show "((step, max_bytes, f1, total, x2), (step, max_bytes, f, total_bytes, s))
      \<in> measure (\<lambda>(step, max_bytes, f, total_bytes, s). length (content f) - pos f)"
    using \<open>f1 = fread_file kBufferSize f\<close> \<open>length (fread_data kBufferSize f) = kBufferSize\<close>
    by (simp add: fread_file_def kBufferSize_def)
qed

declare parse_loop.simps [simp del]

text \<open>
  A parser object: the members \<^verbatim>\<open>input_file_\<close> (\<open>input_file\<close>) and \<^verbatim>\<open>storage_\<close>
  (\<open>storage_vec\<close>) of \<^verbatim>\<open>Parser<T>\<close>; a trailing underscore is not a name here.  The
  read buffer \<^verbatim>\<open>buffer_\<close> is overwritten by every \<^verbatim>\<open>fread\<close> before it is read, so each
  pass works on the bytes \<open>fread_data\<close> delivers.
\<close>

record parser =
  input_file :: stream
  storage_vec :: "char list"

definition fopen :: "char list \<Rightarrow> stream" where
  "fopen bytes = \<lparr>content = bytes, pos = 0, eof = False\<rparr>"

text \<open>\<^verbatim>\<open>Parser<T>::Parser(input_file, storage_size)\<close> and \<^verbatim>\<open>Parser<T>::reset()\<close>.\<close>

definition Parser :: "stream \<Rightarrow> nat \<Rightarrow> parser" where
  "Parser file storage_size =
     \<lparr>input_file = file, storage_vec = replicate storage_size (CHR 0x00)\<rparr>"

definition reset :: "parser \<Rightarrow> parser" where
  "reset p = p\<lparr>input_file := fseek_start (input_file p)\<rparr>"

text \<open>
  The frame of the four \<^verbatim>\<open>parse_objects\<close> bodies: \<^verbatim>\<open>is_end = feof(input_file)\<close>, the
  declarations of the locals (\<open>init\<close>, from the storage and the destination), the loop,
  and \<^verbatim>\<open>return status\<close>.  The storage the call leaves behind stays in the parser.
\<close>

definition parse_objects ::
  "(bool \<Rightarrow> char \<Rightarrow> ('r, 'm) locals_scheme \<Rightarrow> error + ('r, 'm) locals_scheme) \<Rightarrow>
   (char list \<Rightarrow> 'r list \<Rightarrow> ('r, 'm) locals_scheme) \<Rightarrow>
   parser \<Rightarrow> 'r list \<Rightarrow> nat \<Rightarrow> error + (bool \<times> parser \<times> 'r list)" where
  "parse_objects step init p dst0 max_bytes =
     (if eof (input_file p) then Inr (False, p, dst0)
      else
        (case parse_loop step max_bytes (input_file p) 0 (init (storage_vec p) dst0) of
           Inl e \<Rightarrow> Inl e
         | Inr (status, f, s) \<Rightarrow> Inr (status, \<lparr>input_file = f, storage_vec = storage s\<rparr>, dst s)))"

section \<open>FastaParser\<close>

text \<open>
  The record handed to the destination: the bytes of the spans the constructor
  \<^verbatim>\<open>T(name + 1, name_length - 1, data, data_length)\<close> receives.
\<close>

datatype fasta_object = FastaObject "char list" "char list"

text \<open>
  The locals of the two sequence parsers.  \<^verbatim>\<open>name\<close> and \<^verbatim>\<open>data\<close> always point at
  \<^verbatim>\<open>storage_[0]\<close> and \<^verbatim>\<open>storage_[kSSS]\<close>, also after a resize, so they appear as the
  offsets \<open>0\<close> and \<open>kSSS\<close>.  \<^verbatim>\<open>line_number\<close> is a \<^verbatim>\<open>uint32_t\<close> that is incremented
  without bound in the FASTA parser; its wrap-around is written out.  The lengths index
  the storage, so they stay below its size.  \<^verbatim>\<open>is_valid\<close> is false at the head of every
  iteration (it is cleared in the block that tests it), so it is a value local to the
  per-byte body.
\<close>

record 'r seq_locals = "'r locals" +
  line_number :: nat
  name_length :: nat
  data_length :: nat

text \<open>The block \<^verbatim>\<open>if (is_valid) { ... }\<close>.\<close>

definition fasta_complete :: "fasta_object seq_locals \<Rightarrow> error + fasta_object seq_locals" where
  "fasta_complete s =
     (let st = storage s;
          name_len = rtrim st 0 (name_length s);
          data_len = rtrim st kSSS (data_length s)
      in if name_len = 0 \<or> st ! 0 \<noteq> CHR ''>'' \<or> data_len = 0 then Inl InvalidFormat
         else Inr (s\<lparr>dst := dst s @ [FastaObject (region st 1 (name_len - 1)) (region st kSSS data_len)],
                    num_objects := num_objects s + 1,
                    current_bytes := 1,
                    name_length := 1,
                    data_length := 0\<rparr>))"

text \<open>
  The \<^verbatim>\<open>if (c == '\n') ... else if (c == '>' && line_number != 0) ... else switch\<close> part
  of the body: the locals afterwards and the value of \<^verbatim>\<open>is_valid\<close>.
\<close>

definition fasta_char ::
  "bool \<Rightarrow> char \<Rightarrow> fasta_object seq_locals \<Rightarrow> error + (fasta_object seq_locals \<times> bool)" where
  "fasta_char at_end c s =
     (if c = CHR 0x0A then
        Inr (s\<lparr>line_number := (line_number s + 1) mod 2 ^ 32\<rparr>, at_end)
      else if c = CHR ''>'' \<and> line_number s \<noteq> 0 then
        Inr (s\<lparr>line_number := 0\<rparr>, True)
      else if line_number s = 0 then
        (if name_length s < kSSS \<and> \<not> (name_length s = 0 \<and> isspace c) then
           (case store_write (name_length s) c (storage s) of
              Inl e \<Rightarrow> Inl e
            | Inr st \<Rightarrow> Inr (s\<lparr>storage := st, name_length := name_length s + 1\<rparr>, False))
         else Inr (s, False))
      else
        (case store_write (kSSS + data_length s) c (storage s) of
           Inl e \<Rightarrow> Inl e
         | Inr st \<Rightarrow>
             Inr (s\<lparr>storage := (if data_length s + 1 = kMSS then resize (kSSS + kLSS) st else st),
                    data_length := data_length s + 1\<rparr>, False)))"

definition fasta_byte :: "bool \<Rightarrow> char \<Rightarrow> fasta_object seq_locals \<Rightarrow> error + fasta_object seq_locals" where
  "fasta_byte at_end c s =
     (case fasta_char at_end c s of
        Inl e \<Rightarrow> Inl e
      | Inr (s1, is_valid) \<Rightarrow>
          (let s2 = s1\<lparr>current_bytes := current_bytes s1 + 1\<rparr>
           in if is_valid then fasta_complete s2 else Inr s2))"

definition FastaParser :: "stream \<Rightarrow> parser" where
  "FastaParser file = Parser file (kSSS + kMSS)"

text \<open>The locals as \<^verbatim>\<open>FastaParser<T>::parse_objects\<close> declares them.\<close>

definition fasta_init :: "char list \<Rightarrow> fasta_object list \<Rightarrow> fasta_object seq_locals" where
  "fasta_init st dst0 =
     \<lparr>storage = st, dst = dst0, current_bytes = 0, num_objects = 0,
      line_number = 0, name_length = 0, data_length = 0\<rparr>"

definition FastaParser_parse_objects ::
  "parser \<Rightarrow> fasta_object list \<Rightarrow> nat \<Rightarrow> error + (bool \<times> parser \<times> fasta_object list)" where
  "FastaParser_parse_objects = parse_objects fasta_byte fasta_init"

section \<open>FastqParser\<close>

datatype fastq_object = FastqObject "char list" "char list" "char list"

text \<open>
  \<^verbatim>\<open>quality\<close> is the offset of the quality span: \<^verbatim>\<open>&storage_[kSSS + kMSS]\<close> at the start
  of a call, \<^verbatim>\<open>&storage_[kSSS + kLSS]\<close> once the data span has grown.
\<close>

record 'r fastq_locals = "'r seq_locals" +
  quality :: nat
  quality_length :: nat

definition fastq_complete :: "fastq_object fastq_locals \<Rightarrow> error + fastq_object fastq_locals" where
  "fastq_complete s =
     (let st = storage s;
          name_len = rtrim st 0 (name_length s);
          data_len = rtrim st kSSS (data_length s);
          quality_len = rtrim st (quality s) (quality_length s)
      in if name_len = 0 \<or> st ! 0 \<noteq> CHR ''@'' \<or> data_len = 0 \<or> quality_len = 0 \<or>
            data_len \<noteq> quality_len then Inl InvalidFormat
         else Inr (s\<lparr>dst := dst s @ [FastqObject (region st 1 (name_len - 1))
                                    (region st kSSS data_len) (region st (quality s) quality_len)],
                    num_objects := num_objects s + 1,
                    current_bytes := 0,
                    name_length := 0,
                    data_length := 0,
                    quality_length := 0\<rparr>))"

definition fastq_char ::
  "bool \<Rightarrow> char \<Rightarrow> fastq_object fastq_locals \<Rightarrow> error + (fastq_object fastq_locals \<times> bool)" where
  "fastq_char at_end c s =
     (if c = CHR 0x0A then
        (let n = ((line_number s + 1) mod 2 ^ 32) mod 4
         in Inr (s\<lparr>line_number := n\<rparr>, n = 0 \<or> at_end))
      else if line_number s = 0 then
        (if name_length s < kSSS \<and> \<not> (name_length s = 0 \<and> isspace c) then
           (case store_write (name_length s) c (storage s) of
              Inl e \<Rightarrow> Inl e
            | Inr st \<Rightarrow> Inr (s\<lparr>storage := st, name_length := name_length s + 1\<rparr>, False))
         else Inr (s, False))
      else if line_number s = 1 then
        (case store_write (kSSS + data_length s) c (storage s) of
           Inl e \<Rightarrow> Inl e
         | Inr st \<Rightarrow>
             if data_length s + 1 = kMSS then
               Inr (s\<lparr>storage := resize (kSSS + 2 * kLSS) st,
                      data_length := data_length s + 1,
                      quality := kSSS + kLSS\<rparr>, False)
             else Inr (s\<lparr>storage := st, data_length := data_length s + 1\<rparr>, False))
      else if line_number s = 2 then Inr (s, False)
      else if line_number s = 3 then
        (case store_write (quality s + quality_length s) c (storage s) of
           Inl e \<Rightarrow> Inl e
         | Inr st \<Rightarrow> Inr (s\<lparr>storage := st, quality_length := quality_length s + 1\<rparr>, False))
      else Inr (s, False))"

definition fastq_byte ::
  "bool \<Rightarrow> char \<Rightarrow> fastq_object fastq_locals \<Rightarrow> error + fastq_object fastq_locals" where
  "fastq_byte at_end c s =
     (case fastq_char at_end c s of
        Inl e \<Rightarrow> Inl e
      | Inr (s1, is_valid) \<Rightarrow>
          (let s2 = s1\<lparr>current_bytes := current_bytes s1 + 1\<rparr>
           in if is_valid then fastq_complete s2 else Inr s2))"

definition FastqParser :: "stream \<Rightarrow> parser" where
  "FastqParser file = Parser file (kSSS + 2 * kMSS)"

text \<open>The locals as \<^verbatim>\<open>FastqParser<T>::parse_objects\<close> declares them.\<close>

definition fastq_init :: "char list \<Rightarrow> fastq_object list \<Rightarrow> fastq_object fastq_locals" where
  "fastq_init st dst0 =
     \<lparr>storage = st, dst = dst0, current_bytes = 0, num_objects = 0,
      line_number = 0, name_length = 0, data_length = 0,
      quality = kSSS + kMSS, quality_length = 0\<rparr>"

definition FastqParser_parse_objects ::
  "parser \<Rightarrow> fastq_object list \<Rightarrow> nat \<Rightarrow> error + (bool \<times> parser \<times> fastq_object list)" where
  "FastqParser_parse_objects = parse_objects fastq_byte fastq_init"

section \<open>Line records: what MhapParser and PafParser share\<close>

text \<open>
  The C string that starts at index \<open>i\<close> of the storage: the bytes up to the first zero
  byte.  Every caller has written a zero byte at or after \<open>i\<close> before it reads the
  string; the end of the storage stops the embedding where C would read on.
\<close>

function c_str :: "char list \<Rightarrow> nat \<Rightarrow> char list" where
  "c_str st i = (if i < length st \<and> st ! i \<noteq> CHR 0x00 then st ! i # c_str st (i + 1) else [])"
  by pat_completeness auto
termination
  by (relation "measure (\<lambda>(st, i). length st - i)") auto

declare c_str.simps [simp del]

definition isdigit :: "char \<Rightarrow> bool" where
  "isdigit c \<longleftrightarrow> (48::nat) \<le> of_char c \<and> of_char c \<le> (57::nat)"

fun atoi_digits :: "int \<Rightarrow> char list \<Rightarrow> int" where
  "atoi_digits acc [] = acc"
| "atoi_digits acc (c # cs) =
     (if isdigit c then atoi_digits (acc * 10 + (int (of_char c) - 48)) cs else acc)"

text \<open>
  \<^verbatim>\<open>strtol(nptr, NULL, 10)\<close>: leading white space, an optional sign, then decimal digits up
  to the first other byte.  A value outside \<^verbatim>\<open>long\<close> (64 bits) is replaced by \<^verbatim>\<open>LONG_MAX\<close>
  or \<^verbatim>\<open>LONG_MIN\<close>.
\<close>

definition strtol :: "char list \<Rightarrow> int" where
  "strtol cs =
     (case dropWhile isspace cs of
        [] \<Rightarrow> 0
      | c # ds \<Rightarrow>
          if c = CHR ''-'' then max (- (2 ^ 63)) (- atoi_digits 0 ds)
          else if c = CHR ''+'' then min (2 ^ 63 - 1) (atoi_digits 0 ds)
          else min (2 ^ 63 - 1) (atoi_digits 0 (c # ds)))"

text \<open>
  \<^verbatim>\<open>atoi\<close> is \<^verbatim>\<open>(int) strtol(nptr, NULL, 10)\<close>: the conversion to \<^verbatim>\<open>int\<close> keeps the low 32
  bits of the \<^verbatim>\<open>long\<close> as a signed number.  The parsers assign the result to a
  \<^verbatim>\<open>uint32_t\<close>, which keeps it modulo \<open>2^32\<close>.
\<close>

definition atoi :: "char list \<Rightarrow> int" where
  "atoi cs = sint (word_of_int (strtol cs) :: 32 word)"

definition atoi_u32 :: "char list \<Rightarrow> 32 word" where
  "atoi_u32 cs = word_of_int (atoi cs)"

text \<open>
  The field locals both line parsers declare.  They are not cleared between lines.
\<close>

record 'r line_locals = "'r locals" +
  line_length :: nat
  values_length :: nat
  a_length :: "32 word"
  a_begin :: "32 word"
  a_end :: "32 word"
  b_length :: "32 word"
  b_begin :: "32 word"
  b_end :: "32 word"

text \<open>
  \<^verbatim>\<open>while (line_length > 0 && isspace(line[line_length - 1])) { line[line_length - 1] = 0;
  --line_length; }\<close>: the storage and the length afterwards.
\<close>

fun line_trim :: "char list \<Rightarrow> nat \<Rightarrow> error + (char list \<times> nat)" where
  "line_trim st 0 = Inr (st, 0)"
| "line_trim st (Suc n) =
     (if isspace (st ! n) then
        (case store_write n (CHR 0x00) st of
           Inl e \<Rightarrow> Inl e
         | Inr st' \<Rightarrow> line_trim st' n)
      else Inr (st, Suc n))"

text \<open>
  \<^verbatim>\<open>end = begin; for (j = begin; j < line_length; ++j) if (line[j] == sep) { end = j;
  break; } if (end == begin) end = line_length;\<close>
\<close>

definition field_end :: "char \<Rightarrow> char list \<Rightarrow> nat \<Rightarrow> nat \<Rightarrow> nat" where
  "field_end sep st begin len =
     (let end = (case find (\<lambda>j. st ! j = sep) [begin..<len] of Some j \<Rightarrow> j | None \<Rightarrow> begin)
      in if end = begin then len else end)"

section \<open>MhapParser\<close>

text \<open>
  The twelve constructor arguments in their order: \<^verbatim>\<open>a_id, b_id, error, minmers, a_rc,
  a_begin, a_end, a_length, b_rc, b_begin, b_end, b_length\<close>.  \<^verbatim>\<open>error\<close> is a \<^verbatim>\<open>double\<close>
  obtained by \<^verbatim>\<open>atof\<close>; the embedding keeps the C string that \<^verbatim>\<open>atof\<close> is applied to.
\<close>

datatype mhap_object =
  MhapObject "32 word" "32 word" "char list" "32 word" "32 word" "32 word" "32 word" "32 word"
    "32 word" "32 word" "32 word" "32 word"

record 'r mhap_locals = "'r line_locals" +
  a_id :: "32 word"
  b_id :: "32 word"
  error_text :: "char list"
  minmers :: "32 word"
  a_rc :: "32 word"
  b_rc :: "32 word"

text \<open>The \<^verbatim>\<open>switch (values_length)\<close> on the C string \<open>t\<close> at \<^verbatim>\<open>&line[begin]\<close>.\<close>

definition mhap_assign ::
  "nat \<Rightarrow> char list \<Rightarrow> mhap_object mhap_locals \<Rightarrow> mhap_object mhap_locals" where
  "mhap_assign k t s =
     (if k = 0 then s\<lparr>a_id := atoi_u32 t\<rparr>
      else if k = 1 then s\<lparr>b_id := atoi_u32 t\<rparr>
      else if k = 2 then s\<lparr>error_text := t\<rparr>
      else if k = 3 then s\<lparr>minmers := atoi_u32 t\<rparr>
      else if k = 4 then s\<lparr>a_rc := atoi_u32 t\<rparr>
      else if k = 5 then s\<lparr>a_begin := atoi_u32 t\<rparr>
      else if k = 6 then s\<lparr>a_end := atoi_u32 t\<rparr>
      else if k = 7 then s\<lparr>a_length := atoi_u32 t\<rparr>
      else if k = 8 then s\<lparr>b_rc := atoi_u32 t\<rparr>
      else if k = 9 then s\<lparr>b_begin := atoi_u32 t\<rparr>
      else if k = 10 then s\<lparr>b_end := atoi_u32 t\<rparr>
      else s\<lparr>b_length := atoi_u32 t\<rparr>)"

text \<open>
  The \<^verbatim>\<open>while (true)\<close> loop that extracts the fields of the trimmed line, from \<^verbatim>\<open>begin\<close>
  on.
\<close>

function mhap_fields :: "nat \<Rightarrow> mhap_object mhap_locals \<Rightarrow> error + mhap_object mhap_locals" where
  "mhap_fields begin s =
     (let end = field_end (CHR 0x20) (storage s) begin (line_length s)
      in case store_write end (CHR 0x00) (storage s) of
           Inl e \<Rightarrow> Inl e
         | Inr st \<Rightarrow>
             (let s1 = mhap_assign (values_length s) (c_str st begin) (s\<lparr>storage := st\<rparr>);
                  s2 = s1\<lparr>values_length := values_length s1 + 1\<rparr>
              in if end = line_length s \<or> values_length s2 = 12 then Inr s2
                 else mhap_fields (end + 1) s2))"
  by pat_completeness auto
termination
proof (relation "measure (\<lambda>(begin, s). line_length s - begin)")
  show "wf (measure (\<lambda>(begin, s). line_length s - begin))"
    by simp
next
  fix b :: nat and s s1 s2 :: "mhap_object mhap_locals" and e x2
  assume e: "e = field_end (CHR 0x20) (storage s) b (line_length s)"
    and s1: "s1 = mhap_assign (values_length s) (c_str x2 b) (s\<lparr>storage := x2\<rparr>)"
    and s2: "s2 = s1\<lparr>values_length := values_length s1 + 1\<rparr>"
    and ne: "\<not> (e = line_length s \<or> values_length s2 = 12)"
  from e ne have "b < e \<and> e < line_length s"
    by (auto simp: field_end_def Let_def find_Some_iff split: option.splits if_splits)
  then show "((e + 1, s2), (b, s)) \<in> measure (\<lambda>(begin, s). line_length s - begin)"
    using s1 s2 by (auto simp: mhap_assign_def)
qed

declare mhap_fields.simps [simp del]

text \<open>
  The statements of the \<^verbatim>\<open>c == '\n'\<close> branch up to the end of the field loop:
  \<^verbatim>\<open>line[line_length] = 0\<close>, the trimming loop, and the extraction from \<^verbatim>\<open>begin = 0\<close>.
\<close>

definition mhap_line :: "mhap_object mhap_locals \<Rightarrow> error + mhap_object mhap_locals" where
  "mhap_line s =
     (case store_write (line_length s) (CHR 0x00) (storage s) of
        Inl e \<Rightarrow> Inl e
      | Inr st \<Rightarrow>
          (case line_trim st (line_length s) of
             Inl e \<Rightarrow> Inl e
           | Inr (st', len) \<Rightarrow> mhap_fields 0 (s\<lparr>storage := st', line_length := len\<rparr>)))"

text \<open>The validation and the construction that follow the field loop.\<close>

definition mhap_complete :: "mhap_object mhap_locals \<Rightarrow> error + mhap_object mhap_locals" where
  "mhap_complete s =
     (if values_length s \<noteq> 12 then Inl InvalidFormat
      else Inr (s\<lparr>dst := dst s @
                    [MhapObject (a_id s) (b_id s) (error_text s) (minmers s)
                       (a_rc s) (a_begin s) (a_end s) (a_length s)
                       (b_rc s) (b_begin s) (b_end s) (b_length s)],
                 num_objects := num_objects s + 1,
                 current_bytes := 0,
                 line_length := 0,
                 values_length := 0\<rparr>))"

definition mhap_byte ::
  "bool \<Rightarrow> char \<Rightarrow> mhap_object mhap_locals \<Rightarrow> error + mhap_object mhap_locals" where
  "mhap_byte at_end c s =
     (let s1 = s\<lparr>current_bytes := current_bytes s + 1\<rparr>
      in if c = CHR 0x0A then
           (case mhap_line s1 of
              Inl e \<Rightarrow> Inl e
            | Inr s2 \<Rightarrow> mhap_complete s2)
         else
           (case store_write (line_length s1) c (storage s1) of
              Inl e \<Rightarrow> Inl e
            | Inr st \<Rightarrow> Inr (s1\<lparr>storage := st, line_length := line_length s1 + 1\<rparr>)))"

definition MhapParser :: "stream \<Rightarrow> parser" where
  "MhapParser file = Parser file kSSS"

text \<open>The locals as \<^verbatim>\<open>MhapParser<T>::parse_objects\<close> declares them.\<close>

definition mhap_init :: "char list \<Rightarrow> mhap_object list \<Rightarrow> mhap_object mhap_locals" where
  "mhap_init st dst0 =
     \<lparr>storage = st, dst = dst0, current_bytes = 0, num_objects = 0,
      line_length = 0, values_length = 0,
      a_length = 0, a_begin = 0, a_end = 0, b_length = 0, b_begin = 0, b_end = 0,
      a_id = 0, b_id = 0, error_text = [], minmers = 0, a_rc = 0, b_rc = 0\<rparr>"

definition MhapParser_parse_objects ::
  "parser \<Rightarrow> mhap_object list \<Rightarrow> nat \<Rightarrow> error + (bool \<times> parser \<times> mhap_object list)" where
  "MhapParser_parse_objects = parse_objects mhap_byte mhap_init"

section \<open>PafParser\<close>

text \<open>
  The constructor arguments: the bytes of the span \<^verbatim>\<open>(a_name, a_name_length)\<close>, then
  \<^verbatim>\<open>a_length, a_begin, a_end, orientation\<close>, the bytes of \<^verbatim>\<open>(b_name, b_name_length)\<close>, then
  \<^verbatim>\<open>b_length, b_begin, b_end, matching_bases, overlap_length, quality\<close>.
\<close>

datatype paf_object =
  PafObject "char list" "32 word" "32 word" "32 word" char "char list" "32 word" "32 word"
    "32 word" "32 word" "32 word" "32 word"

text \<open>
  \<^verbatim>\<open>a_name\<close> and \<^verbatim>\<open>b_name\<close> point into the line, so they are offsets into the storage
  (the initial null pointers are never dereferenced, their lengths being 0).  The local
  \<^verbatim>\<open>quality\<close> of this parser is \<open>paf_quality\<close>.  The name lengths are \<^verbatim>\<open>end - begin\<close> with
  \<^verbatim>\<open>begin <= end\<close> on every path from \<^verbatim>\<open>begin = 0\<close>.
\<close>

record 'r paf_locals = "'r line_locals" +
  a_name :: nat
  a_name_length :: nat
  b_name :: nat
  b_name_length :: nat
  matching_bases :: "32 word"
  overlap_length :: "32 word"
  paf_quality :: "32 word"
  orientation :: char

text \<open>
  The \<^verbatim>\<open>switch (values_length)\<close> for the field \<^verbatim>\<open>[begin, end)\<close> of the line in \<open>storage s\<close>.
\<close>

definition paf_assign ::
  "nat \<Rightarrow> nat \<Rightarrow> nat \<Rightarrow> paf_object paf_locals \<Rightarrow> paf_object paf_locals" where
  "paf_assign k begin end s =
     (if k = 0 then s\<lparr>a_name := begin, a_name_length := end - begin\<rparr>
      else if k = 1 then s\<lparr>a_length := atoi_u32 (c_str (storage s) begin)\<rparr>
      else if k = 2 then s\<lparr>a_begin := atoi_u32 (c_str (storage s) begin)\<rparr>
      else if k = 3 then s\<lparr>a_end := atoi_u32 (c_str (storage s) begin)\<rparr>
      else if k = 4 then s\<lparr>orientation := storage s ! begin\<rparr>
      else if k = 5 then s\<lparr>b_name := begin, b_name_length := end - begin\<rparr>
      else if k = 6 then s\<lparr>b_length := atoi_u32 (c_str (storage s) begin)\<rparr>
      else if k = 7 then s\<lparr>b_begin := atoi_u32 (c_str (storage s) begin)\<rparr>
      else if k = 8 then s\<lparr>b_end := atoi_u32 (c_str (storage s) begin)\<rparr>
      else if k = 9 then s\<lparr>matching_bases := atoi_u32 (c_str (storage s) begin)\<rparr>
      else if k = 10 then s\<lparr>overlap_length := atoi_u32 (c_str (storage s) begin)\<rparr>
      else s\<lparr>paf_quality := atoi_u32 (c_str (storage s) begin)\<rparr>)"

function paf_fields :: "nat \<Rightarrow> paf_object paf_locals \<Rightarrow> error + paf_object paf_locals" where
  "paf_fields begin s =
     (let end = field_end (CHR 0x09) (storage s) begin (line_length s)
      in case store_write end (CHR 0x00) (storage s) of
           Inl e \<Rightarrow> Inl e
         | Inr st \<Rightarrow>
             (let s1 = paf_assign (values_length s) begin end (s\<lparr>storage := st\<rparr>);
                  s2 = s1\<lparr>values_length := values_length s1 + 1\<rparr>
              in if end = line_length s \<or> values_length s2 = 12 then Inr s2
                 else paf_fields (end + 1) s2))"
  by pat_completeness auto
termination
proof (relation "measure (\<lambda>(begin, s). line_length s - begin)")
  show "wf (measure (\<lambda>(begin, s). line_length s - begin))"
    by simp
next
  fix b :: nat and s s1 s2 :: "paf_object paf_locals" and e x2
  assume e: "e = field_end (CHR 0x09) (storage s) b (line_length s)"
    and s1: "s1 = paf_assign (values_length s) b e (s\<lparr>storage := x2\<rparr>)"
    and s2: "s2 = s1\<lparr>values_length := values_length s1 + 1\<rparr>"
    and ne: "\<not> (e = line_length s \<or> values_length s2 = 12)"
  from e ne have "b < e \<and> e < line_length s"
    by (auto simp: field_end_def Let_def find_Some_iff split: option.splits if_splits)
  then show "((e + 1, s2), (b, s)) \<in> measure (\<lambda>(begin, s). line_length s - begin)"
    using s1 s2 by (auto simp: paf_assign_def)
qed

declare paf_fields.simps [simp del]

text \<open>
  The statements between the field loop and the construction: both name spans are
  trimmed and clamped to \<^verbatim>\<open>kSSS\<close>, then the line is validated.
\<close>

definition paf_complete :: "paf_object paf_locals \<Rightarrow> error + paf_object paf_locals" where
  "paf_complete s =
     (let a_len = min (rtrim (storage s) (a_name s) (a_name_length s)) kSSS;
          b_len = min (rtrim (storage s) (b_name s) (b_name_length s)) kSSS
      in if a_len = 0 \<or> b_len = 0 \<or> values_length s \<noteq> 12 then Inl InvalidFormat
         else Inr (s\<lparr>dst := dst s @
                       [PafObject (region (storage s) (a_name s) a_len) (a_length s) (a_begin s)
                          (a_end s) (orientation s) (region (storage s) (b_name s) b_len)
                          (b_length s) (b_begin s) (b_end s) (matching_bases s)
                          (overlap_length s) (paf_quality s)],
                    num_objects := num_objects s + 1,
                    current_bytes := 0,
                    line_length := 0,
                    values_length := 0,
                    a_name_length := a_len,
                    b_name_length := b_len\<rparr>))"

definition paf_line :: "paf_object paf_locals \<Rightarrow> error + paf_object paf_locals" where
  "paf_line s =
     (case store_write (line_length s) (CHR 0x00) (storage s) of
        Inl e \<Rightarrow> Inl e
      | Inr st \<Rightarrow>
          (case line_trim st (line_length s) of
             Inl e \<Rightarrow> Inl e
           | Inr (st', len) \<Rightarrow> paf_fields 0 (s\<lparr>storage := st', line_length := len\<rparr>)))"

definition paf_byte ::
  "bool \<Rightarrow> char \<Rightarrow> paf_object paf_locals \<Rightarrow> error + paf_object paf_locals" where
  "paf_byte at_end c s =
     (let s1 = s\<lparr>current_bytes := current_bytes s + 1\<rparr>
      in if c = CHR 0x0A then
           (case paf_line s1 of
              Inl e \<Rightarrow> Inl e
            | Inr s2 \<Rightarrow> paf_complete s2)
         else
           (case store_write (line_length s1) c (storage s1) of
              Inl e \<Rightarrow> Inl e
            | Inr st \<Rightarrow> Inr (s1\<lparr>storage := st, line_length := line_length s1 + 1\<rparr>)))"

definition PafParser :: "stream \<Rightarrow> parser" where
  "PafParser file = Parser file (3 * kSSS)"

text \<open>The locals as \<^verbatim>\<open>PafParser<T>::parse_objects\<close> declares them.\<close>

definition paf_init :: "char list \<Rightarrow> paf_object list \<Rightarrow> paf_object paf_locals" where
  "paf_init st dst0 =
     \<lparr>storage = st, dst = dst0, current_bytes = 0, num_objects = 0,
      line_length = 0, values_length = 0,
      a_length = 0, a_begin = 0, a_end = 0, b_length = 0, b_begin = 0, b_end = 0,
      a_name = 0, a_name_length = 0, b_name = 0, b_name_length = 0,
      matching_bases = 0, overlap_length = 0, paf_quality = 0, orientation = CHR 0x00\<rparr>"

definition PafParser_parse_objects ::
  "parser \<Rightarrow> paf_object list \<Rightarrow> nat \<Rightarrow> error + (bool \<times> parser \<times> paf_object list)" where
  "PafParser_parse_objects = parse_objects paf_byte paf_init"

section \<open>Callers\<close>

text \<open>What a caller observes of a call: the fatal error, or the status and the destination.\<close>

definition outcome :: "error + (bool \<times> parser \<times> 'r list) \<Rightarrow> error + (bool \<times> 'r list)" where
  "outcome r = (case r of Inl e \<Rightarrow> Inl e | Inr (status, p, d) \<Rightarrow> Inr (status, d))"

text \<open>
  The loop of the chunked tests, \<^verbatim>\<open>while (parser->parse_objects(reads, size_in_bytes)) {}\<close>,
  with a bound on the number of calls: \<open>None\<close> when the bound is reached before a call
  returns \<^verbatim>\<open>false\<close> or fails.
\<close>

fun parse_in_chunks ::
  "(parser \<Rightarrow> 'r list \<Rightarrow> nat \<Rightarrow> error + (bool \<times> parser \<times> 'r list)) \<Rightarrow> nat \<Rightarrow> nat \<Rightarrow>
   parser \<Rightarrow> 'r list \<Rightarrow> (error + (parser \<times> 'r list)) option" where
  "parse_in_chunks parse 0 size_in_bytes p reads = None"
| "parse_in_chunks parse (Suc calls) size_in_bytes p reads =
     (case parse p reads size_in_bytes of
        Inl e \<Rightarrow> Some (Inl e)
      | Inr (status, p', reads') \<Rightarrow>
          if status then parse_in_chunks parse calls size_in_bytes p' reads'
          else Some (Inr (p', reads')))"

section \<open>Predicates used in the statements\<close>

text \<open>
  A record of the FASTQ parser as the specification wants it: data and quality are not
  empty and have the same length.
\<close>

definition fastq_well_formed :: "fastq_object \<Rightarrow> bool" where
  "fastq_well_formed r =
     (case r of FastqObject n d q \<Rightarrow> d \<noteq> [] \<and> q \<noteq> [] \<and> length d = length q)"

text \<open>
  The phase counter of the FASTQ parser stays below 4, and quality bytes are held only
  while it is 3.
\<close>

definition fastq_phase_ok :: "fastq_object fastq_locals \<Rightarrow> bool" where
  "fastq_phase_ok s \<longleftrightarrow> line_number s < 4 \<and> (line_number s \<noteq> 3 \<longrightarrow> quality_length s = 0)"

text \<open>
  The lines of an input: the maximal segments without a newline byte, the last one being
  what follows the last newline (it has no newline of its own and may be empty).
\<close>

fun lines_of :: "char list \<Rightarrow> char list list" where
  "lines_of [] = [[]]"
| "lines_of (c # cs) =
     (if c = CHR 0x0A then [] # lines_of cs
      else (case lines_of cs of [] \<Rightarrow> [[c]] | l # ls \<Rightarrow> (c # l) # ls))"

text \<open>
  Every byte of the input, content or newline, arrives when fewer than \<open>cap\<close> bytes of
  its line are in the line buffer; \<open>k\<close> is the number already there.
\<close>

fun lines_fit :: "nat \<Rightarrow> nat \<Rightarrow> char list \<Rightarrow> bool" where
  "lines_fit cap k [] = True"
| "lines_fit cap k (c # cs) = (k < cap \<and> lines_fit cap (if c = CHR 0x0A then 0 else k + 1) cs)"

section \<open>Byte budgets\<close>

text \<open>
  The number of bytes a call with a budget has scanned when it makes the read that
  exceeds the budget: the blocks of \<open>kBufferSize\<close> bytes that fit into \<open>max_bytes\<close>.
\<close>

definition in_budget :: "nat \<Rightarrow> nat" where
  "in_budget max_bytes = max_bytes div kBufferSize * kBufferSize"

text \<open>
  What the budget branch relies on in a per-byte body: a byte adds at most one to
  \<^verbatim>\<open>current_bytes\<close>, and \<^verbatim>\<open>num_objects\<close> counts the records appended to the destination.
\<close>

definition counts_records ::
  "(bool \<Rightarrow> char \<Rightarrow> ('r, 'm) locals_scheme \<Rightarrow> error + ('r, 'm) locals_scheme) \<Rightarrow> bool" where
  "counts_records step \<longleftrightarrow>
     (\<forall>a c s s'. step a c s = Inr s' \<longrightarrow>
        current_bytes s' \<le> current_bytes s + 1 \<and>
        length (dst s') + num_objects s = length (dst s) + num_objects s' \<and>
        (\<exists>new. dst s' = dst s @ new))"

text \<open>
  A FASTA stream of 65541 bytes with three records: \<open>a\<close> takes the first five bytes, \<open>b\<close>
  with 65527 bases the next 65531 and \<open>c\<close> the last five. From offset 5 the stream has
  exactly \<open>kBufferSize\<close> bytes left.
\<close>

definition fasta_three_records :: string where
  "fasta_three_records =
     ''>a\<newline>C\<newline>>b\<newline>'' @ replicate 65527 (CHR ''A'') @ ''\<newline>>c\<newline>G\<newline>''"

section \<open>Lines of MHAP fields\<close>

text \<open>
  A line as a list of fields: the fields written one after the other with one space
  byte between two of them.
\<close>

fun join_fields :: "char list list \<Rightarrow> char list" where
  "join_fields [] = []"
| "join_fields [t] = t"
| "join_fields (t # u # ts) = t @ CHR 0x20 # join_fields (u # ts)"

text \<open>
  A field that the line loop keeps whole: not empty, without a space byte, a newline or a zero
  byte, and not ending in white space (which the trimming loop would remove at the end of
  the line).  A tab inside a field is allowed.
\<close>

definition field_token :: "char list \<Rightarrow> bool" where
  "field_token t \<longleftrightarrow>
     t \<noteq> [] \<and> CHR 0x20 \<notin> set t \<and> CHR 0x0A \<notin> set t \<and> CHR 0x00 \<notin> set t \<and> \<not> isspace (last t)"

text \<open>The record that \<^verbatim>\<open>dst.emplace_back\<close> builds from the field locals.\<close>

definition mhap_values :: "mhap_object mhap_locals \<Rightarrow> mhap_object" where
  "mhap_values s =
     MhapObject (a_id s) (b_id s) (error_text s) (minmers s) (a_rc s) (a_begin s) (a_end s)
       (a_length s) (b_rc s) (b_begin s) (b_end s) (b_length s)"

text \<open>
  The assignments of the \<^verbatim>\<open>switch\<close> for the fields \<open>ts\<close> in turn, the first of them at index
  \<open>k\<close>, up to the twelfth.
\<close>

fun mhap_assign_all ::
  "nat \<Rightarrow> char list list \<Rightarrow> mhap_object mhap_locals \<Rightarrow> mhap_object mhap_locals" where
  "mhap_assign_all k [] s = s"
| "mhap_assign_all k (t # ts) s =
     (if 12 \<le> k then s else mhap_assign_all (k + 1) ts (mhap_assign k t s))"

section \<open>Groups of four FASTQ lines\<close>

text \<open>
  A line of a group as the statements take it: without a newline byte, and without white
  space at either end (leading white space of the header is skipped by the parser, trailing
  white space of every span is trimmed before validation).
\<close>

definition text_line :: "char list \<Rightarrow> bool" where
  "text_line l \<longleftrightarrow>
     CHR 0x0A \<notin> set l \<and> (l = [] \<or> (\<not> isspace (hd l) \<and> \<not> isspace (last l)))"

text \<open>
  The locals of the FASTQ parser where a group starts: at the start of a call, and after
  every completed record.  The storage has its initial or its grown size, and the quality
  span is where the call or the growth put it.
\<close>

definition fastq_group_start :: "fastq_object fastq_locals \<Rightarrow> bool" where
  "fastq_group_start s \<longleftrightarrow>
     line_number s = 0 \<and> name_length s = 0 \<and> data_length s = 0 \<and> quality_length s = 0 \<and>
     kSSS + 2 * kMSS \<le> length (storage s) \<and> length (storage s) \<le> kSSS + 2 * kLSS \<and>
     (quality s = kSSS + kMSS \<or>
      (quality s = kSSS + kLSS \<and> length (storage s) = kSSS + 2 * kLSS))"

section \<open>Lines of PAF fields\<close>



section \<open>Evaluation on concrete inputs\<close>

lemma rtrim_unfold:
  "rtrim st off n =
     (if n = 0 then 0 else if isspace (st ! (off + (n - 1))) then rtrim st off (n - 1) else n)"
  by (cases n) auto

lemma line_trim_unfold:
  "line_trim st n =
     (if n = 0 then Inr (st, 0)
      else if isspace (st ! (n - 1)) then
        (case store_write (n - 1) (CHR 0x00) st of
           Inl e \<Rightarrow> Inl e
         | Inr st' \<Rightarrow> line_trim st' (n - 1))
      else Inr (st, n))"
  by (cases n) (auto split: sum.splits)

lemmas constants_defs = kBufferSize_def kSSS_def kMSS_def kLSS_def

lemmas stream_defs = fopen_def fread_data_def fread_file_def fseek_back_def fseek_start_def

lemmas storage_defs = store_write_def isspace_def region_def rtrim_unfold

lemmas fasta_defs =
  FastaParser_parse_objects_def parse_objects_def fasta_init_def FastaParser_def Parser_def
  parse_loop.simps
  fasta_byte_def fasta_char_def fasta_complete_def outcome_def Let_def
  constants_defs stream_defs storage_defs

lemmas fastq_defs =
  FastqParser_parse_objects_def parse_objects_def fastq_init_def FastqParser_def Parser_def
  parse_loop.simps
  fastq_byte_def fastq_char_def fastq_complete_def outcome_def Let_def
  constants_defs stream_defs storage_defs

lemma atoi_u32_strtol: "atoi_u32 cs = word_of_int (strtol cs)"
  by (simp add: atoi_u32_def atoi_def)

lemmas line_defs =
  line_trim_unfold field_end_def c_str.simps atoi_u32_strtol strtol_def isdigit_def

lemmas mhap_defs =
  MhapParser_parse_objects_def parse_objects_def mhap_init_def MhapParser_def Parser_def
  parse_loop.simps
  mhap_byte_def mhap_line_def mhap_complete_def mhap_fields.simps mhap_assign_def
  outcome_def Let_def constants_defs stream_defs storage_defs line_defs

lemmas paf_defs =
  PafParser_parse_objects_def parse_objects_def paf_init_def PafParser_def Parser_def
  parse_loop.simps
  paf_byte_def paf_line_def paf_complete_def paf_fields.simps paf_assign_def
  outcome_def Let_def constants_defs stream_defs storage_defs line_defs

section \<open>The read loop in terms of one scan\<close>

text \<open>
  A call reads the bytes that remain in the stream in blocks of \<open>kBufferSize\<close>.  Without
  a budget it scans all of them, and the last byte is scanned with
  \<^verbatim>\<open>is_end && i == read_bytes - 1\<close> true exactly when the last block is shorter than the
  buffer: after a last block of full size \<^verbatim>\<open>feof\<close> is still false, and the read that sets
  it delivers no byte.  With a budget the call scans the blocks that fit into it and then
  takes the budget branch.
\<close>

lemma scan_append:
  "scan step e (xs @ ys) s =
     (if ys = [] then scan step e xs s
      else (case scan step False xs s of Inl x \<Rightarrow> Inl x | Inr s' \<Rightarrow> scan step e ys s'))"
  by (induction xs arbitrary: s) (auto split: sum.splits)

lemma scan_False_append:
  "scan step False (xs @ ys) s =
     (case scan step False xs s of Inl x \<Rightarrow> Inl x | Inr s' \<Rightarrow> scan step False ys s')"
  by (induction xs arbitrary: s) (auto split: sum.splits)

lemma fread_short:
  "length (remaining f) < n \<Longrightarrow>
   fread_data n f = remaining f \<and>
   fread_file n f = f\<lparr>pos := pos f + length (remaining f), eof := True\<rparr>"
  by (simp add: fread_data_def fread_file_def remaining_def)

lemma fread_full:
  "n \<le> length (remaining f) \<Longrightarrow>
   fread_data n f = take n (remaining f) \<and>
   remaining (fread_file n f) = drop n (remaining f) \<and>
   eof (fread_file n f) = eof f \<and>
   pos (fread_file n f) = pos f + n \<and>
   content (fread_file n f) = content f"
  by (simp add: fread_data_def fread_file_def remaining_def min_def add.commute)

lemma parse_loop_unbounded:
  "\<not> eof f \<Longrightarrow>
   parse_loop step 0 f t s =
     (case scan step (length (remaining f) mod kBufferSize \<noteq> 0) (remaining f) s of
        Inl e \<Rightarrow> Inl e
      | Inr s' \<Rightarrow> Inr (False, f\<lparr>pos := pos f + length (remaining f), eof := True\<rparr>, s'))"
proof (induction "length (remaining f)" arbitrary: f t s rule: less_induct)
  case less
  let ?bs = "remaining f"
  define e where "e \<longleftrightarrow> length ?bs mod kBufferSize \<noteq> 0"
  have "parse_loop step 0 f t s =
     (case scan step e ?bs s of
        Inl x \<Rightarrow> Inl x
      | Inr s' \<Rightarrow> Inr (False, f\<lparr>pos := pos f + length ?bs, eof := True\<rparr>, s'))"
  proof (cases "length ?bs < kBufferSize")
    case True
    then have m: "e \<longleftrightarrow> ?bs \<noteq> []" by (simp add: e_def)
    show ?thesis
      using fread_short [OF True]
      by (subst parse_loop.simps) (cases "?bs = []"; simp add: Let_def m split: sum.splits)
  next
    case False
    then have full: "kBufferSize \<le> length ?bs" by simp
    let ?f1 = "fread_file kBufferSize f"
    note ff = fread_full [OF full]
    have k: "0 < kBufferSize" by (simp add: kBufferSize_def)
    have len: "length (remaining ?f1) < length ?bs" using full k by (simp add: ff)
    have md: "(length (remaining ?f1) mod kBufferSize \<noteq> 0) = e"
      using full by (simp add: ff le_mod_geq e_def)
    have split: "?bs = take kBufferSize ?bs @ drop kBufferSize ?bs" by simp
    have fin: "?f1\<lparr>pos := pos ?f1 + length (remaining ?f1), eof := True\<rparr> =
        f\<lparr>pos := pos f + length ?bs, eof := True\<rparr>"
      using full by (simp add: fread_file_def fread_data_def remaining_def min_def)
    have ih: "parse_loop step 0 ?f1 t' s' =
       (case scan step e (drop kBufferSize ?bs) s' of
        Inl x \<Rightarrow> Inl x
      | Inr s'' \<Rightarrow> Inr (False, f\<lparr>pos := pos f + length ?bs, eof := True\<rparr>, s''))" for t' s'
    proof -
      have ne: "\<not> eof ?f1" using less.prems ff by simp
      show ?thesis
        using less.hyps [OF len ne, of t' s'] unfolding md fin by (simp add: ff)
    qed
    have sc: "scan step e ?bs s =
       (case scan step False (take kBufferSize ?bs) s of Inl x \<Rightarrow> Inl x
          | Inr s' \<Rightarrow> scan step e (drop kBufferSize ?bs) s')"
    proof (cases "drop kBufferSize ?bs = []")
      case True
      then have "length ?bs = kBufferSize" using full by simp
      then have "\<not> e" by (simp add: e_def)
      then show ?thesis using True by (auto split: sum.splits)
    next
      case False
      then show ?thesis by (subst split, subst scan_append) simp
    qed
    show ?thesis
      using ff less.prems
      by (subst parse_loop.simps) (simp add: Let_def ih sc split: sum.splits)
  qed
  then show ?case by (simp only: e_def)
qed


lemma parse_loop_within_budget:
  "\<not> eof f \<Longrightarrow> t + length (remaining f) \<le> m \<Longrightarrow>
   parse_loop step m f t s = parse_loop step 0 f t s"
proof (induction "length (remaining f)" arbitrary: f t s rule: less_induct)
  case less
  let ?bs = "remaining f"
  show ?case
  proof (cases "length ?bs < kBufferSize")
    case True
    show ?thesis
      using fread_short [OF True] less.prems
      by (subst parse_loop.simps, subst (2) parse_loop.simps)
         (simp add: Let_def split: sum.splits)
  next
    case False
    then have full: "kBufferSize \<le> length ?bs" by simp
    let ?f1 = "fread_file kBufferSize f"
    note ff = fread_full [OF full]
    have k: "0 < kBufferSize" by (simp add: kBufferSize_def)
    have len: "length (remaining ?f1) < length ?bs" using full k by (simp add: ff)
    have ne: "\<not> eof ?f1" using less.prems ff by simp
    have bud: "(t + kBufferSize) + length (remaining ?f1) \<le> m"
      using less.prems full by (simp add: ff)
    have ih: "parse_loop step m ?f1 (t + kBufferSize) s' = parse_loop step 0 ?f1 (t + kBufferSize) s'" for s'
      by (rule less.hyps [OF len ne bud])
    have nb: "\<not> m < t + kBufferSize" using less.prems full by simp
    have mn: "min (length ?bs) kBufferSize = kBufferSize" using full by simp
    show ?thesis
      using ff ne nb
      by (subst parse_loop.simps, subst (2) parse_loop.simps)
         (simp add: Let_def ih mn split: sum.splits)
  qed
qed

lemma parse_loop_over_budget:
  "\<not> eof f \<Longrightarrow> m \<noteq> 0 \<Longrightarrow> t \<le> m \<Longrightarrow> m < t + length (remaining f) \<Longrightarrow>
   parse_loop step m f t s =
     (case scan step False (take ((m - t) div kBufferSize * kBufferSize) (remaining f)) s of
        Inl e \<Rightarrow> Inl e
      | Inr s' \<Rightarrow>
          if num_objects s' = 0 then Inl ChunkTooSmall
          else Inr (True,
                 fseek_back
                   (current_bytes s' +
                    length (fread_data kBufferSize
                       (f\<lparr>pos := pos f + (m - t) div kBufferSize * kBufferSize\<rparr>)))
                   (fread_file kBufferSize
                       (f\<lparr>pos := pos f + (m - t) div kBufferSize * kBufferSize\<rparr>)), s'))"
proof (induction "length (remaining f)" arbitrary: f t s rule: less_induct)
  case less
  let ?bs = "remaining f"
  have k: "0 < kBufferSize" by (simp add: kBufferSize_def)
  show ?case
  proof (cases "m < t + length (fread_data kBufferSize f)")
    case True
    have "length (fread_data kBufferSize f) \<le> kBufferSize" by (simp add: fread_data_def)
    with True less.prems have "(m - t) div kBufferSize = 0" by simp
    then show ?thesis
      using True less.prems
      by (subst parse_loop.simps) (simp add: Let_def)
  next
    case False
    have full: "kBufferSize \<le> length ?bs"
    proof (rule ccontr)
      assume "\<not> kBufferSize \<le> length ?bs"
      then have "fread_data kBufferSize f = ?bs" using fread_short [of f kBufferSize] by simp
      with False less.prems show False by simp
    qed
    let ?f1 = "fread_file kBufferSize f"
    note ff = fread_full [OF full]
    have tk: "t + kBufferSize \<le> m" using False ff full by simp
    have len: "length (remaining ?f1) < length ?bs" using full k by (simp add: ff)
    have ne: "\<not> eof ?f1" using less.prems ff by simp
    have bud: "m < (t + kBufferSize) + length (remaining ?f1)"
      using less.prems full by (simp add: ff)
    define n' where "n' = (m - (t + kBufferSize)) div kBufferSize * kBufferSize"
    have n: "(m - t) div kBufferSize * kBufferSize = kBufferSize + n'"
    proof -
      have "m - t = (m - (t + kBufferSize)) + kBufferSize" using tk by simp
      then have "(m - t) div kBufferSize = (m - (t + kBufferSize)) div kBufferSize + 1"
        using k by (metis div_add_self2 less_numeral_extra(3))
      then show ?thesis by (simp add: n'_def)
    qed
    have f1n: "?f1\<lparr>pos := pos ?f1 + n'\<rparr> = f\<lparr>pos := pos f + (kBufferSize + n')\<rparr>"
      using full less.prems by (simp add: fread_file_def fread_data_def remaining_def min_def)
    have ih: "parse_loop step m ?f1 (t + kBufferSize) s' =
       (case scan step False (take n' (drop kBufferSize ?bs)) s' of
        Inl e \<Rightarrow> Inl e
      | Inr s'' \<Rightarrow>
          if num_objects s'' = 0 then Inl ChunkTooSmall
          else Inr (True,
                 fseek_back
                   (current_bytes s'' +
                    length (fread_data kBufferSize (f\<lparr>pos := pos f + (kBufferSize + n')\<rparr>)))
                   (fread_file kBufferSize (f\<lparr>pos := pos f + (kBufferSize + n')\<rparr>)), s''))" for s'
      using less.hyps [OF len ne less.prems(2) tk bud]
      unfolding n'_def [symmetric] f1n by (simp add: ff)
    have tk2: "take (kBufferSize + n') ?bs = take kBufferSize ?bs @ take n' (drop kBufferSize ?bs)"
      by (simp add: take_add)
    have mn: "min (length ?bs) kBufferSize = kBufferSize" using full by simp
    show ?thesis
      unfolding n tk2 scan_False_append
      using ff ne False
      by (subst parse_loop.simps) (simp add: Let_def ih mn split: sum.splits)
  qed
qed

section \<open>Record boundaries of the FASTA parser\<close>

lemma fasta_byte_marker:
  "line_number s \<noteq> 0 \<Longrightarrow>
   fasta_byte at_end (CHR ''>'') s =
     fasta_complete (s\<lparr>line_number := 0, current_bytes := current_bytes s + 1\<rparr>)"
  by (simp add: fasta_byte_def fasta_char_def)

lemma fasta_byte_no_boundary:
  assumes "fasta_byte at_end c s = Inr s'"
    and "\<not> (c = CHR ''>'' \<and> line_number s \<noteq> 0)" and "\<not> (c = CHR 0x0A \<and> at_end)"
  shows "dst s' = dst s \<and> num_objects s' = num_objects s"
  using assms
  by (auto simp: fasta_byte_def fasta_char_def Let_def split: if_splits sum.splits)

text \<open>
  C5, as the claim states it, fails.  In the input \<open>>a\<newline>AC>b\<newline>GT\<newline>\<close> the only marker
  bytes are byte 0 and byte 5; byte 5 follows the data bytes \<open>AC\<close> of the second line, so
  it is not the first byte of a line.  The claim says that it does not terminate the
  record \<open>a\<close>; the parser ends that record there with the data \<open>AC\<close> and starts the
  record \<open>b\<close>.
\<close>

theorem C5_marker_inside_line_counterexample:
  "(''>a\<newline>AC>b\<newline>GT\<newline>'' ! 5 = CHR ''>'' \<and> ''>a\<newline>AC>b\<newline>GT\<newline>'' ! 4 \<noteq> CHR 0x0A) \<and>
   outcome (FastaParser_parse_objects (FastaParser (fopen ''>a\<newline>AC>b\<newline>GT\<newline>'')) [] 0) =
     Inr (False, [FastaObject ''a'' ''AC'', FastaObject ''b'' ''GT''])"
  by (simp add: fasta_defs)

text \<open>
  C5, amended: in the FASTA parser a marker byte \<^verbatim>\<open>'>'\<close> terminates the record in
  progress exactly when \<^verbatim>\<open>line_number\<close> is not 0, that is when a newline has been read
  since the name of the record began, wherever in its line the marker stands; with
  \<^verbatim>\<open>line_number\<close> 0 it completes nothing.  No byte other than such a marker and the
  newline that ends the last read completes a record.
\<close>

theorem C5_marker_after_header_line:
  "(line_number s \<noteq> 0 \<longrightarrow>
      fasta_byte at_end (CHR ''>'') s =
        fasta_complete (s\<lparr>line_number := 0, current_bytes := current_bytes s + 1\<rparr>)) \<and>
   (fasta_byte at_end c s = Inr s' \<and> \<not> (c = CHR ''>'' \<and> line_number s \<noteq> 0) \<and>
      \<not> (c = CHR 0x0A \<and> at_end) \<longrightarrow>
      dst s' = dst s \<and> num_objects s' = num_objects s)"
  using fasta_byte_marker fasta_byte_no_boundary by blast

theorem C5_marker_after_header_line_witness:
  "(line_number
      \<lparr>storage = (replicate (kSSS + kMSS) (CHR 0x00))
                    [0 := CHR ''>'', 1 := CHR ''a'', kSSS := CHR ''A'', kSSS + 1 := CHR ''C''],
       dst = ([] :: fasta_object list), current_bytes = 5, num_objects = 0,
       line_number = 1, name_length = 2, data_length = 2\<rparr> \<noteq> 0 \<and>
    fasta_byte False (CHR ''>'')
      \<lparr>storage = (replicate (kSSS + kMSS) (CHR 0x00))
                    [0 := CHR ''>'', 1 := CHR ''a'', kSSS := CHR ''A'', kSSS + 1 := CHR ''C''],
       dst = [], current_bytes = 5, num_objects = 0,
       line_number = 1, name_length = 2, data_length = 2\<rparr> =
    Inr \<lparr>storage = (replicate (kSSS + kMSS) (CHR 0x00))
                    [0 := CHR ''>'', 1 := CHR ''a'', kSSS := CHR ''A'', kSSS + 1 := CHR ''C''],
         dst = [FastaObject ''a'' ''AC''], current_bytes = 1, num_objects = 1,
         line_number = 0, name_length = 1, data_length = 0\<rparr>) \<and>
   (fasta_byte False (CHR ''G'')
      \<lparr>storage = (replicate (kSSS + kMSS) (CHR 0x00))
                    [0 := CHR ''>'', 1 := CHR ''a'', kSSS := CHR ''A'', kSSS + 1 := CHR ''C''],
       dst = [], current_bytes = 5, num_objects = 0,
       line_number = 1, name_length = 2, data_length = 2\<rparr> =
    Inr \<lparr>storage = (replicate (kSSS + kMSS) (CHR 0x00))
                    [0 := CHR ''>'', 1 := CHR ''a'', kSSS := CHR ''A'', kSSS + 1 := CHR ''C'',
                     kSSS + 2 := CHR ''G''],
         dst = [], current_bytes = 6, num_objects = 0,
         line_number = 1, name_length = 2, data_length = 3\<rparr> \<and>
    dst \<lparr>storage = (replicate (kSSS + kMSS) (CHR 0x00))
                    [0 := CHR ''>'', 1 := CHR ''a'', kSSS := CHR ''A'', kSSS + 1 := CHR ''C'',
                     kSSS + 2 := CHR ''G''],
         dst = ([] :: fasta_object list), current_bytes = 6, num_objects = 0,
         line_number = 1, name_length = 2, data_length = 3\<rparr> = [])"
  using C5_marker_after_header_line
    [of "\<lparr>storage = (replicate (kSSS + kMSS) (CHR 0x00))
                       [0 := CHR ''>'', 1 := CHR ''a'', kSSS := CHR ''A'', kSSS + 1 := CHR ''C''],
          dst = [], current_bytes = 5, num_objects = 0,
          line_number = 1, name_length = 2, data_length = 2\<rparr>"
        False "CHR ''G''"
        "\<lparr>storage = (replicate (kSSS + kMSS) (CHR 0x00))
                       [0 := CHR ''>'', 1 := CHR ''a'', kSSS := CHR ''A'', kSSS + 1 := CHR ''C'',
                        kSSS + 2 := CHR ''G''],
          dst = [], current_bytes = 6, num_objects = 0,
          line_number = 1, name_length = 2, data_length = 3\<rparr>"]
  by (simp add: fasta_defs)

lemma parse_objects_unbounded:
  "\<not> eof (input_file p) \<Longrightarrow>
   parse_objects step init p dst0 0 =
     (case scan step (length (remaining (input_file p)) mod kBufferSize \<noteq> 0)
             (remaining (input_file p)) (init (storage_vec p) dst0) of
        Inl e \<Rightarrow> Inl e
      | Inr s \<Rightarrow>
          Inr (False,
               \<lparr>input_file = (input_file p)\<lparr>pos := pos (input_file p) + length (remaining (input_file p)),
                                            eof := True\<rparr>,
                storage_vec = storage s\<rparr>, dst s))"
  by (simp add: parse_objects_def parse_loop_unbounded split: sum.splits)

lemma parse_objects_within_budget:
  "length (remaining (input_file p)) \<le> max_bytes \<Longrightarrow>
   parse_objects step init p dst0 max_bytes = parse_objects step init p dst0 0"
  by (simp add: parse_objects_def parse_loop_within_budget)

lemma parse_objects_over_budget:
  assumes "\<not> eof (input_file p)" and "max_bytes \<noteq> 0"
    and "max_bytes < length (remaining (input_file p))"
  shows "parse_objects step init p dst0 max_bytes =
     (case scan step False
             (take (max_bytes div kBufferSize * kBufferSize) (remaining (input_file p)))
             (init (storage_vec p) dst0) of
        Inl e \<Rightarrow> Inl e
      | Inr s \<Rightarrow>
          if num_objects s = 0 then Inl ChunkTooSmall
          else Inr (True,
                 \<lparr>input_file =
                    fseek_back
                      (current_bytes s +
                       length (fread_data kBufferSize
                          ((input_file p)\<lparr>pos := pos (input_file p) +
                               max_bytes div kBufferSize * kBufferSize\<rparr>)))
                      (fread_file kBufferSize
                          ((input_file p)\<lparr>pos := pos (input_file p) +
                               max_bytes div kBufferSize * kBufferSize\<rparr>)),
                  storage_vec = storage s\<rparr>, dst s))"
  using assms parse_loop_over_budget [of "input_file p" max_bytes 0 step "init (storage_vec p) dst0"]
  by (simp add: parse_objects_def split: sum.splits)

lemma scan_trace:
  assumes step: "\<And>a c xs s s'. J xs s \<Longrightarrow> step a c s = Inr s' \<Longrightarrow> J (xs @ [c]) s'"
  shows "J pre s \<Longrightarrow> scan step e bs s = Inr s' \<Longrightarrow> J (pre @ bs) s'"
proof (induction bs arbitrary: pre s)
  case Nil
  then show ?case by simp
next
  case (Cons c cs)
  from Cons.prems(2) obtain s1 where s1: "step (e \<and> cs = []) c s = Inr s1"
    and rest: "scan step e cs s1 = Inr s'"
    by (auto split: sum.splits)
  from step [OF Cons.prems(1) s1] have "J (pre @ [c]) s1" .
  from Cons.IH [OF this rest] show ?case by simp
qed


lemma mod_32_4: "((n::nat) mod 4294967296) mod 4 = n mod 4"
  by (simp add: mod_mod_cancel)

lemma dvd_mod_32_4: "4 dvd ((n::nat) mod 4294967296) \<longleftrightarrow> 4 dvd n"
  by (simp add: dvd_mod_iff)

lemma rtrim_0 [simp]: "rtrim st off 0 = 0"
  by simp

lemma fastq_complete_empty_quality:
  "quality_length s = 0 \<Longrightarrow> fastq_complete s = Inl InvalidFormat"
  by (simp add: fastq_complete_def Let_def)

lemma fastq_complete_Inr:
  "fastq_complete s = Inr s' \<Longrightarrow>
   line_number s' = line_number s \<and> quality_length s' = 0 \<and>
   num_objects s' = num_objects s + 1 \<and> length (dst s') = length (dst s) + 1"
  by (auto simp: fastq_complete_def Let_def split: if_splits)

lemma fastq_char_Inr:
  "fastq_char at_end c s = Inr (s1, v) \<Longrightarrow>
   num_objects s1 = num_objects s \<and> dst s1 = dst s \<and>
   line_number s1 = (if c = CHR 0x0A then (line_number s + 1) mod 4 else line_number s) \<and>
   v = (c = CHR 0x0A \<and> ((line_number s + 1) mod 4 = 0 \<or> at_end)) \<and>
   (line_number s \<noteq> 3 \<or> c = CHR 0x0A \<longrightarrow> quality_length s1 = quality_length s)"
  by (auto simp: fastq_char_def Let_def mod_32_4 dvd_mod_32_4 split: if_splits sum.splits)

lemma fastq_byte_split:
  assumes "fastq_byte at_end c s = Inr s'"
  obtains s1 v where "fastq_char at_end c s = Inr (s1, v)"
    and "(if v then fastq_complete (s1\<lparr>current_bytes := current_bytes s1 + 1\<rparr>)
          else Inr (s1\<lparr>current_bytes := current_bytes s1 + 1\<rparr>)) = Inr s'"
proof (cases "fastq_char at_end c s")
  case (Inl e)
  with assms show ?thesis by (simp add: fastq_byte_def)
next
  case (Inr x)
  obtain s1 v where x: "x = (s1, v)" by (cases x)
  show ?thesis
  proof (rule that)
    show "fastq_char at_end c s = Inr (s1, v)" using Inr x by simp
    show "(if v then fastq_complete (s1\<lparr>current_bytes := current_bytes s1 + 1\<rparr>)
          else Inr (s1\<lparr>current_bytes := current_bytes s1 + 1\<rparr>)) = Inr s'"
      using Inr x assms by (simp add: fastq_byte_def Let_def split: if_splits)
  qed
qed

lemma fastq_byte_phase_ok:
  assumes "fastq_phase_ok s" and "fastq_byte at_end c s = Inr s'"
  shows "fastq_phase_ok s'"
proof -
  from assms(2) obtain s1 v where c: "fastq_char at_end c s = Inr (s1, v)"
    and r: "(if v then fastq_complete (s1\<lparr>current_bytes := current_bytes s1 + 1\<rparr>)
             else Inr (s1\<lparr>current_bytes := current_bytes s1 + 1\<rparr>)) = Inr s'"
    by (rule fastq_byte_split)
  note f = fastq_char_Inr [OF c]
  show ?thesis
  proof (cases v)
    case True
    with r have "fastq_complete (s1\<lparr>current_bytes := current_bytes s1 + 1\<rparr>) = Inr s'" by simp
    from fastq_complete_Inr [OF this] f True show ?thesis
      by (auto simp: fastq_phase_ok_def)
  next
    case False
    with r have s': "s' = s1\<lparr>current_bytes := current_bytes s1 + 1\<rparr>" by simp
    show ?thesis
    proof (cases "c = CHR 0x0A")
      case True
      with f False assms(1) show ?thesis
        unfolding s' fastq_phase_ok_def by (auto; presburger)
    next
      case False
      with f assms(1) show ?thesis
        unfolding s' fastq_phase_ok_def by auto
    qed
  qed
qed


lemma parse_objects_Inr_scan:
  assumes "parse_objects step init p d m = Inr (status, p', d')"
  shows "(eof (input_file p) \<and> d' = d) \<or>
         (\<exists>e bs s. scan step e bs (init (storage_vec p) d) = Inr s \<and> d' = dst s \<and>
                   storage_vec p' = storage s)"
proof (cases "eof (input_file p)")
  case True
  with assms show ?thesis by (simp add: parse_objects_def)
next
  case False
  show ?thesis
  proof (cases "m = 0 \<or> length (remaining (input_file p)) \<le> m")
    case True
    then have "parse_objects step init p d m = parse_objects step init p d 0"
      using parse_objects_within_budget [of p m step init d] by auto
    with assms False obtain s where
      "scan step (length (remaining (input_file p)) mod kBufferSize \<noteq> 0)
         (remaining (input_file p)) (init (storage_vec p) d) = Inr s"
      "d' = dst s" "storage_vec p' = storage s"
      by (auto simp: parse_objects_unbounded split: sum.splits)
    then show ?thesis by blast
  next
    case over: False
    with assms False obtain s where
      "scan step False (take (m div kBufferSize * kBufferSize) (remaining (input_file p)))
         (init (storage_vec p) d) = Inr s"
      "d' = dst s" "storage_vec p' = storage s"
      by (auto simp: parse_objects_over_budget split: sum.splits if_splits)
    then show ?thesis by blast
  qed
qed

lemma length_region [simp]: "length (region st off n) = n"
  by (simp add: region_def)

lemma region_Nil_iff [simp]: "region st off n = [] \<longleftrightarrow> n = 0"
  by (auto simp: region_def)

lemma region_tl: "region st (Suc off) (n - 1) = tl (region st off n)"
proof (cases n)
  case 0
  then show ?thesis by (simp add: region_def)
next
  case (Suc k)
  then show ?thesis by (simp add: region_def upt_conv_Cons)
qed

lemma region_hd: "0 < n \<Longrightarrow> hd (region st off n) = st ! off"
  by (simp add: region_def upt_conv_Cons)

lemma fastq_complete_dst:
  "fastq_complete s = Inr s' \<Longrightarrow> \<exists>r. dst s' = dst s @ [r] \<and> fastq_well_formed r"
  by (auto simp: fastq_complete_def Let_def fastq_well_formed_def split: if_splits)

lemma fastq_byte_dst:
  assumes "fastq_byte at_end c s = Inr s'"
  shows "\<exists>new. dst s' = dst s @ new \<and> (\<forall>r\<in>set new. fastq_well_formed r)"
proof -
  from assms obtain s1 v where c: "fastq_char at_end c s = Inr (s1, v)"
    and r: "(if v then fastq_complete (s1\<lparr>current_bytes := current_bytes s1 + 1\<rparr>)
             else Inr (s1\<lparr>current_bytes := current_bytes s1 + 1\<rparr>)) = Inr s'"
    by (rule fastq_byte_split)
  note f = fastq_char_Inr [OF c]
  show ?thesis
  proof (cases v)
    case True
    with r have "fastq_complete (s1\<lparr>current_bytes := current_bytes s1 + 1\<rparr>) = Inr s'" by simp
    from fastq_complete_dst [OF this] f show ?thesis by auto
  next
    case False
    with r f show ?thesis by auto
  qed
qed

lemma scan_dst_extends:
  assumes step: "\<And>a c s s'. step a c s = Inr s' \<Longrightarrow>
                   \<exists>new. dst s' = dst s @ new \<and> (\<forall>r\<in>set new. P r)"
    and "scan step e bs s = Inr s'"
  shows "\<exists>new. dst s' = dst s @ new \<and> (\<forall>r\<in>set new. P r)"
proof -
  have "\<exists>new. dst s' = dst s @ new \<and> (\<forall>r\<in>set new. P r)"
    if "scan step e bs s = Inr s'" for bs s
    using that
  proof (induction bs arbitrary: s)
    case Nil
    then show ?case by simp
  next
    case (Cons c cs)
    from Cons.prems obtain s1 where s1: "step (e \<and> cs = []) c s = Inr s1"
      and rest: "scan step e cs s1 = Inr s'"
      by (auto split: sum.splits)
    from step [OF s1] obtain n1 where n1: "dst s1 = dst s @ n1" "\<forall>r\<in>set n1. P r" by blast
    from Cons.IH [OF rest] obtain n2 where n2: "dst s' = dst s1 @ n2" "\<forall>r\<in>set n2. P r" by blast
    from n1 n2 have "dst s' = dst s @ (n1 @ n2) \<and> (\<forall>r\<in>set (n1 @ n2). P r)" by auto
    then show ?case by blast
  qed
  from this [OF assms(2)] show ?thesis .
qed

lemma fastq_byte_count:
  assumes ok: "fastq_phase_ok s" and b: "fastq_byte at_end c s = Inr s'"
  shows "4 * num_objects s' + line_number s' =
           4 * num_objects s + line_number s + (if c = CHR 0x0A then 1 else 0) \<and>
         length (dst s') + num_objects s = length (dst s) + num_objects s'"
proof -
  from b obtain s1 v where c: "fastq_char at_end c s = Inr (s1, v)"
    and r: "(if v then fastq_complete (s1\<lparr>current_bytes := current_bytes s1 + 1\<rparr>)
             else Inr (s1\<lparr>current_bytes := current_bytes s1 + 1\<rparr>)) = Inr s'"
    by (rule fastq_byte_split)
  note f = fastq_char_Inr [OF c]
  show ?thesis
  proof (cases v)
    case True
    with r have cm: "fastq_complete (s1\<lparr>current_bytes := current_bytes s1 + 1\<rparr>) = Inr s'"
      by simp
    have "quality_length s1 \<noteq> 0"
      using cm fastq_complete_empty_quality [of "s1\<lparr>current_bytes := current_bytes s1 + 1\<rparr>"]
      by auto
    with f True ok have ln: "line_number s = 3" by (auto simp: fastq_phase_ok_def)
    from fastq_complete_Inr [OF cm] f True ln show ?thesis by auto
  next
    case False
    with r have s': "s' = s1\<lparr>current_bytes := current_bytes s1 + 1\<rparr>" by simp
    show ?thesis
    proof (cases "c = CHR 0x0A")
      case True
      with f False have "(line_number s + 1) mod 4 \<noteq> 0" by auto
      moreover from ok have "line_number s < 4" by (simp add: fastq_phase_ok_def)
      ultimately have "(line_number s + 1) mod 4 = line_number s + 1" by presburger
      with f True show ?thesis unfolding s' by simp
    next
      case False
      with f show ?thesis unfolding s' by simp
    qed
  qed
qed

lemma fastq_scan_count:
  assumes "scan fastq_byte e bs (fastq_init st dst0) = Inr s"
  shows "4 * num_objects s + line_number s = count_list bs (CHR 0x0A) \<and>
         length (dst s) = length dst0 + num_objects s \<and> line_number s < 4"
proof -
  let ?J = "\<lambda>xs s. fastq_phase_ok s \<and>
      4 * num_objects s + line_number s = count_list xs (CHR 0x0A) \<and>
      length (dst s) = length dst0 + num_objects s"
  have step: "?J (xs @ [c]) s'" if "?J xs s" and "fastq_byte a c s = Inr s'" for a c xs s s'
    using that fastq_byte_phase_ok [of s a c s'] fastq_byte_count [of s a c s']
    by auto
  have init: "?J [] (fastq_init st dst0)"
    by (simp add: fastq_init_def fastq_phase_ok_def)
  have "?J ([] @ bs) s"
    by (rule scan_trace [where J = ?J, OF step init assms])
  then show ?thesis by (simp add: fastq_phase_ok_def)
qed

section \<open>Record completion in the FASTQ parser\<close>

text \<open>
  C7, as the claim states it, fails.  The four lines \<open>@a\<close>, \<open>AC\<close>, \<open>+\<close>, \<open>II\<close> with no
  newline after the quality line produce no record and no error: \<^verbatim>\<open>is_valid\<close> is set only
  in the \<^verbatim>\<open>c == '\n'\<close> branch, and the bytes \<open>II\<close> are never followed by a newline.  The
  same lines with the trailing newline produce the record.
\<close>

theorem C7_unterminated_last_line_counterexample:
  "outcome (FastqParser_parse_objects (FastqParser (fopen ''@a\<newline>AC\<newline>+\<newline>II'')) [] 0) =
     Inr (False, []) \<and>
   outcome (FastqParser_parse_objects (FastqParser (fopen ''@a\<newline>AC\<newline>+\<newline>II\<newline>'')) [] 0) =
     Inr (False, [FastqObject ''a'' ''AC'' ''II''])"
  by (simp add: fastq_defs)

lemma fastq_char_is_valid:
  "fastq_char at_end c s = Inr (s1, is_valid) \<Longrightarrow>
   is_valid = (c = CHR 0x0A \<and> ((line_number s + 1) mod 4 = 0 \<or> at_end))"
  using fastq_char_Inr [of at_end c s s1 is_valid] by simp

lemma fastq_unbounded_count:
  assumes "\<not> eof (input_file p)"
    and "outcome (FastqParser_parse_objects p dst0 0) = Inr (status, dst')"
  shows "length dst' = length dst0 + count_list (remaining (input_file p)) (CHR 0x0A) div 4"
proof -
  from assms obtain s where
    sc: "scan fastq_byte (length (remaining (input_file p)) mod kBufferSize \<noteq> 0)
           (remaining (input_file p)) (fastq_init (storage_vec p) dst0) = Inr s"
    and d: "dst' = dst s"
    by (auto simp: FastqParser_parse_objects_def parse_objects_unbounded outcome_def
        split: sum.splits)
  from fastq_scan_count [OF sc] show ?thesis unfolding d by presburger
qed

text \<open>
  C7, amended: in the FASTQ parser a record completes only at a newline byte, namely one
  that wraps the four-line phase counter to 0 or one that is the last byte of the read
  that reached the end of the file; the bytes of a final line without a trailing newline
  complete nothing.  A call without a budget that succeeds appends exactly one record
  for every four newline bytes that remain in the stream, so the final group of an input
  whose last quality line lacks the newline is not emitted.
\<close>

theorem C7_record_per_four_newlines:
  "(fastq_char at_end c s = Inr (s1, is_valid) \<longrightarrow>
      is_valid = (c = CHR 0x0A \<and> ((line_number s + 1) mod 4 = 0 \<or> at_end))) \<and>
   (\<not> eof (input_file p) \<and>
    outcome (FastqParser_parse_objects p dst0 0) = Inr (status, dst') \<longrightarrow>
      length dst' = length dst0 + count_list (remaining (input_file p)) (CHR 0x0A) div 4)"
proof (intro conjI impI)
  assume "fastq_char at_end c s = Inr (s1, is_valid)"
  then show "is_valid = (c = CHR 0x0A \<and> ((line_number s + 1) mod 4 = 0 \<or> at_end))"
    by (rule fastq_char_is_valid)
next
  assume "\<not> eof (input_file p) \<and>
    outcome (FastqParser_parse_objects p dst0 0) = Inr (status, dst')"
  then show "length dst' =
      length dst0 + count_list (remaining (input_file p)) (CHR 0x0A) div 4"
    using fastq_unbounded_count [of p dst0 status dst'] by simp
qed

theorem C7_record_per_four_newlines_witness:
  "(fastq_char False (CHR 0x0A) (fastq_init (replicate (kSSS + 2 * kMSS) (CHR 0x00)) []) =
      Inr ((fastq_init (replicate (kSSS + 2 * kMSS) (CHR 0x00)) [])\<lparr>line_number := 1\<rparr>, False) \<and>
    False = (CHR 0x0A = CHR 0x0A \<and>
      ((line_number (fastq_init (replicate (kSSS + 2 * kMSS) (CHR 0x00)) []) + 1) mod 4 = 0 \<or> False))) \<and>
   (\<not> eof (input_file (FastqParser (fopen ''@a\<newline>AC\<newline>+\<newline>II\<newline>@b\<newline>G\<newline>+\<newline>I''))) \<and>
    outcome (FastqParser_parse_objects
      (FastqParser (fopen ''@a\<newline>AC\<newline>+\<newline>II\<newline>@b\<newline>G\<newline>+\<newline>I'')) [] 0) =
      Inr (False, [FastqObject ''a'' ''AC'' ''II'']) \<and>
    length [FastqObject ''a'' ''AC'' ''II''] =
      length ([] :: fastq_object list) +
      count_list (remaining (input_file
        (FastqParser (fopen ''@a\<newline>AC\<newline>+\<newline>II\<newline>@b\<newline>G\<newline>+\<newline>I'')))) (CHR 0x0A) div 4)"
  using C7_record_per_four_newlines
    [of False "CHR 0x0A" "fastq_init (replicate (kSSS + 2 * kMSS) (CHR 0x00)) []"
        "(fastq_init (replicate (kSSS + 2 * kMSS) (CHR 0x00)) [])\<lparr>line_number := 1\<rparr>" False
        "FastqParser (fopen ''@a\<newline>AC\<newline>+\<newline>II\<newline>@b\<newline>G\<newline>+\<newline>I'')" "[]" False
        "[FastqObject ''a'' ''AC'' ''II'']"]
  by (simp add: fastq_defs fastq_init_def remaining_def)

section \<open>Validation of FASTQ records\<close>

lemma scan_error_at:
  assumes "scan step False xs s = Inr s1"
    and "step (e \<and> ys = []) c s1 = Inl x"
  shows "scan step e (xs @ c # ys) s = Inl x"
  using assms by (simp add: scan_append)

lemma fastq_complete_Inr_fields:
  assumes "fastq_complete s = Inr s'"
  shows "region (storage s) 0 (rtrim (storage s) 0 (name_length s)) \<noteq> [] \<and>
     hd (region (storage s) 0 (rtrim (storage s) 0 (name_length s))) = CHR ''@'' \<and>
     fastq_well_formed
       (FastqObject (tl (region (storage s) 0 (rtrim (storage s) 0 (name_length s))))
          (region (storage s) kSSS (rtrim (storage s) kSSS (data_length s)))
          (region (storage s) (quality s) (rtrim (storage s) (quality s) (quality_length s)))) \<and>
     dst s' = dst s @
       [FastqObject (tl (region (storage s) 0 (rtrim (storage s) 0 (name_length s))))
          (region (storage s) kSSS (rtrim (storage s) kSSS (data_length s)))
          (region (storage s) (quality s) (rtrim (storage s) (quality s) (quality_length s)))]"
  using assms
  by (auto simp: fastq_complete_def Let_def fastq_well_formed_def region_hd
      region_tl [of _ 0, simplified] split: if_splits)

lemma fastq_complete_Inl:
  assumes "region (storage s) 0 (rtrim (storage s) 0 (name_length s)) = [] \<or>
     hd (region (storage s) 0 (rtrim (storage s) 0 (name_length s))) \<noteq> CHR ''@'' \<or>
     \<not> fastq_well_formed
       (FastqObject n
          (region (storage s) kSSS (rtrim (storage s) kSSS (data_length s)))
          (region (storage s) (quality s) (rtrim (storage s) (quality s) (quality_length s))))"
  shows "fastq_complete s = Inl InvalidFormat"
  using assms
  by (auto simp: fastq_complete_def Let_def fastq_well_formed_def region_hd)

lemma fastq_byte_completes:
  "fastq_char at_end c s = Inr (s1, True) \<Longrightarrow>
   fastq_byte at_end c s = fastq_complete (s1\<lparr>current_bytes := current_bytes s1 + 1\<rparr>)"
  by (simp add: fastq_byte_def Let_def)

lemma fastq_parse_objects_dst:
  assumes "outcome (FastqParser_parse_objects p dst0 max_bytes) = Inr (status, dst')"
  shows "\<exists>new. dst' = dst0 @ new \<and> (\<forall>r\<in>set new. fastq_well_formed r)"
proof -
  from assms obtain p' where
    "parse_objects fastq_byte fastq_init p dst0 max_bytes = Inr (status, p', dst')"
    by (auto simp: outcome_def FastqParser_parse_objects_def split: sum.splits)
  from parse_objects_Inr_scan [OF this] show ?thesis
  proof (elim disjE exE conjE)
    assume "dst' = dst0"
    then show ?thesis by simp
  next
    fix e bs s
    assume sc: "scan fastq_byte e bs (fastq_init (storage_vec p) dst0) = Inr s" and d: "dst' = dst s"
    from scan_dst_extends [where P = fastq_well_formed, OF fastq_byte_dst sc]
    show ?thesis unfolding d by (simp add: fastq_init_def)
  qed
qed

lemma fastq_parse_objects_invalid:
  assumes "\<not> eof (input_file p)" and "remaining (input_file p) = xs @ c # ys"
    and "scan fastq_byte False xs (fastq_init (storage_vec p) dst0) = Inr s"
    and "fastq_byte (ys = [] \<and> length (remaining (input_file p)) mod kBufferSize \<noteq> 0) c s =
           Inl InvalidFormat"
  shows "FastqParser_parse_objects p dst0 0 = Inl InvalidFormat"
proof -
  have "scan fastq_byte (length (remaining (input_file p)) mod kBufferSize \<noteq> 0)
          (xs @ c # ys) (fastq_init (storage_vec p) dst0) = Inl InvalidFormat"
    using assms(3,4) by (intro scan_error_at) (auto simp: conj_commute)
  then show ?thesis
    using assms(1,2) by (simp add: FastqParser_parse_objects_def parse_objects_unbounded)
qed

section \<open>The line buffer of the MHAP and PAF parsers\<close>

lemma store_write_Inr:
  "store_write i c st = Inr st' \<Longrightarrow> i < length st \<and> st' = st[i := c]"
  by (auto simp: store_write_def split: if_splits)

lemma store_write_Inl:
  "store_write i c st = Inl e \<Longrightarrow> e = OutOfBounds \<and> length st \<le> i"
  by (auto simp: store_write_def split: if_splits)

lemma mhap_assign_frame [simp]:
  "line_length (mhap_assign k t s) = line_length s"
  "values_length (mhap_assign k t s) = values_length s"
  "storage (mhap_assign k t s) = storage s"
  "dst (mhap_assign k t s) = dst s"
  "num_objects (mhap_assign k t s) = num_objects s"
  "current_bytes (mhap_assign k t s) = current_bytes s"
  by (simp_all add: mhap_assign_def)

lemma paf_assign_frame [simp]:
  "line_length (paf_assign k b e s) = line_length s"
  "values_length (paf_assign k b e s) = values_length s"
  "storage (paf_assign k b e s) = storage s"
  "dst (paf_assign k b e s) = dst s"
  "num_objects (paf_assign k b e s) = num_objects s"
  "current_bytes (paf_assign k b e s) = current_bytes s"
  by (simp_all add: paf_assign_def)

lemma field_end_bounds:
  "begin \<le> len \<Longrightarrow> begin \<le> field_end sep st begin len \<and> field_end sep st begin len \<le> len"
  by (auto simp: field_end_def Let_def find_Some_iff split: option.splits)

lemma field_end_less:
  "field_end sep st begin len \<noteq> len \<Longrightarrow>
   begin < field_end sep st begin len \<and> field_end sep st begin len < len"
  by (auto simp: field_end_def Let_def find_Some_iff split: option.splits if_splits)

lemma mhap_fields_frame:
  "mhap_fields b s = Inr s' \<Longrightarrow>
   dst s' = dst s \<and> num_objects s' = num_objects s \<and> current_bytes s' = current_bytes s \<and>
   line_length s' = line_length s \<and> length (storage s') = length (storage s) \<and>
   values_length s < values_length s' \<and> (values_length s < 12 \<longrightarrow> values_length s' \<le> 12)"
proof (induction b s arbitrary: s' rule: mhap_fields.induct)
  case (1 b s)
  let ?e = "field_end (CHR 0x20) (storage s) b (line_length s)"
  from "1.prems" obtain st where w: "store_write ?e (CHR 0x00) (storage s) = Inr st"
    by (subst (asm) mhap_fields.simps) (auto simp: Let_def split: sum.splits)
  let ?s1 = "mhap_assign (values_length s) (c_str st b) (s\<lparr>storage := st\<rparr>)"
  let ?s2 = "?s1\<lparr>values_length := values_length ?s1 + 1\<rparr>"
  from store_write_Inr [OF w] have len: "length st = length (storage s)" by simp
  show ?case
  proof (cases "?e = line_length s \<or> values_length ?s2 = 12")
    case True
    with "1.prems" w have "s' = ?s2"
      by (subst (asm) mhap_fields.simps) (simp add: Let_def)
    with len True show ?thesis by auto
  next
    case False
    with "1.prems" w have r: "mhap_fields (?e + 1) ?s2 = Inr s'"
      by (subst (asm) mhap_fields.simps) (simp add: Let_def)
    from "1.IH" [OF refl w refl refl False r] len False show ?thesis by auto
  qed
qed

lemma mhap_fields_no_overflow:
  "b \<le> line_length s \<Longrightarrow> line_length s < length (storage s) \<Longrightarrow>
   mhap_fields b s \<noteq> Inl e"
proof (induction b s rule: mhap_fields.induct)
  case (1 b s)
  let ?e = "field_end (CHR 0x20) (storage s) b (line_length s)"
  from field_end_bounds [OF "1.prems"(1), of "CHR 0x20" "storage s"] "1.prems"(2)
  have eb: "?e < length (storage s)" by simp
  then have w: "store_write ?e (CHR 0x00) (storage s) = Inr ((storage s)[?e := CHR 0x00])"
    by (simp add: store_write_def)
  let ?st = "(storage s)[?e := CHR 0x00]"
  let ?s1 = "mhap_assign (values_length s) (c_str ?st b) (s\<lparr>storage := ?st\<rparr>)"
  let ?s2 = "?s1\<lparr>values_length := values_length ?s1 + 1\<rparr>"
  show ?case
  proof (cases "?e = line_length s \<or> values_length ?s2 = 12")
    case True
    with w show ?thesis by (subst mhap_fields.simps) (simp add: Let_def)
  next
    case False
    then have "?e \<noteq> line_length s" by simp
    from field_end_less [OF this] have b': "?e + 1 \<le> line_length ?s2" by simp
    have l': "line_length ?s2 < length (storage ?s2)" using "1.prems"(2) by simp
    from "1.IH" [OF refl w refl refl False b' l'] False w show ?thesis
      by (subst mhap_fields.simps) (simp add: Let_def)
  qed
qed

lemma paf_fields_frame:
  "paf_fields b s = Inr s' \<Longrightarrow>
   dst s' = dst s \<and> num_objects s' = num_objects s \<and> current_bytes s' = current_bytes s \<and>
   line_length s' = line_length s \<and> length (storage s') = length (storage s) \<and>
   values_length s < values_length s' \<and> (values_length s < 12 \<longrightarrow> values_length s' \<le> 12)"
proof (induction b s arbitrary: s' rule: paf_fields.induct)
  case (1 b s)
  let ?e = "field_end (CHR 0x09) (storage s) b (line_length s)"
  from "1.prems" obtain st where w: "store_write ?e (CHR 0x00) (storage s) = Inr st"
    by (subst (asm) paf_fields.simps) (auto simp: Let_def split: sum.splits)
  let ?s1 = "paf_assign (values_length s) b ?e (s\<lparr>storage := st\<rparr>)"
  let ?s2 = "?s1\<lparr>values_length := values_length ?s1 + 1\<rparr>"
  from store_write_Inr [OF w] have len: "length st = length (storage s)" by simp
  show ?case
  proof (cases "?e = line_length s \<or> values_length ?s2 = 12")
    case True
    with "1.prems" w have "s' = ?s2"
      by (subst (asm) paf_fields.simps) (simp add: Let_def)
    with len True show ?thesis by auto
  next
    case False
    with "1.prems" w have r: "paf_fields (?e + 1) ?s2 = Inr s'"
      by (subst (asm) paf_fields.simps) (simp add: Let_def)
    from "1.IH" [OF refl w refl refl False r] len False show ?thesis by auto
  qed
qed

lemma paf_fields_no_overflow:
  "b \<le> line_length s \<Longrightarrow> line_length s < length (storage s) \<Longrightarrow>
   paf_fields b s \<noteq> Inl e"
proof (induction b s rule: paf_fields.induct)
  case (1 b s)
  let ?e = "field_end (CHR 0x09) (storage s) b (line_length s)"
  from field_end_bounds [OF "1.prems"(1), of "CHR 0x09" "storage s"] "1.prems"(2)
  have eb: "?e < length (storage s)" by simp
  then have w: "store_write ?e (CHR 0x00) (storage s) = Inr ((storage s)[?e := CHR 0x00])"
    by (simp add: store_write_def)
  let ?st = "(storage s)[?e := CHR 0x00]"
  let ?s1 = "paf_assign (values_length s) b ?e (s\<lparr>storage := ?st\<rparr>)"
  let ?s2 = "?s1\<lparr>values_length := values_length ?s1 + 1\<rparr>"
  show ?case
  proof (cases "?e = line_length s \<or> values_length ?s2 = 12")
    case True
    with w show ?thesis by (subst paf_fields.simps) (simp add: Let_def)
  next
    case False
    then have "?e \<noteq> line_length s" by simp
    from field_end_less [OF this] have b': "?e + 1 \<le> line_length ?s2" by simp
    have l': "line_length ?s2 < length (storage ?s2)" using "1.prems"(2) by simp
    from "1.IH" [OF refl w refl refl False b' l'] False w show ?thesis
      by (subst paf_fields.simps) (simp add: Let_def)
  qed
qed

lemma line_trim_frame:
  "n \<le> length st \<Longrightarrow> \<exists>st' m. line_trim st n = Inr (st', m) \<and> m \<le> n \<and> length st' = length st"
proof (induction n arbitrary: st)
  case 0
  then show ?case by simp
next
  case (Suc n)
  then have "n < length st" by simp
  then have w: "store_write n (CHR 0x00) st = Inr (st[n := CHR 0x00])"
    by (simp add: store_write_def)
  from Suc.IH [of "st[n := CHR 0x00]"] Suc.prems
  obtain st' m where "line_trim (st[n := CHR 0x00]) n = Inr (st', m)" "m \<le> n"
    "length st' = length st" by auto
  with w show ?case by auto
qed


lemma mhap_line_frame:
  assumes "mhap_line s = Inr s2"
  shows "dst s2 = dst s \<and> num_objects s2 = num_objects s \<and> current_bytes s2 = current_bytes s \<and>
         length (storage s2) = length (storage s) \<and> line_length s2 \<le> line_length s \<and>
         values_length s < values_length s2 \<and> (values_length s < 12 \<longrightarrow> values_length s2 \<le> 12)"
proof -
  from assms obtain st where w: "store_write (line_length s) (CHR 0x00) (storage s) = Inr st"
    by (auto simp: mhap_line_def split: sum.splits)
  from store_write_Inr [OF w] have l: "line_length s \<le> length st" "length st = length (storage s)"
    by simp_all
  from line_trim_frame [OF l(1)] obtain st' m where
    t: "line_trim st (line_length s) = Inr (st', m)" "m \<le> line_length s" "length st' = length st"
    by blast
  from assms w t have "mhap_fields 0 (s\<lparr>storage := st', line_length := m\<rparr>) = Inr s2"
    by (simp add: mhap_line_def)
  from mhap_fields_frame [OF this] t l show ?thesis by simp
qed

lemma mhap_line_no_overflow:
  assumes "line_length s < length (storage s)"
  shows "mhap_line s \<noteq> Inl e"
proof -
  from assms have w: "store_write (line_length s) (CHR 0x00) (storage s) =
      Inr ((storage s)[line_length s := CHR 0x00])"
    by (simp add: store_write_def)
  let ?st = "(storage s)[line_length s := CHR 0x00]"
  have "line_length s \<le> length ?st" using assms by simp
  from line_trim_frame [OF this] obtain st' m where
    t: "line_trim ?st (line_length s) = Inr (st', m)" "m \<le> line_length s" "length st' = length ?st"
    by blast
  have "mhap_fields 0 (s\<lparr>storage := st', line_length := m\<rparr>) \<noteq> Inl e"
    using t assms by (intro mhap_fields_no_overflow) simp_all
  with w t show ?thesis by (simp add: mhap_line_def)
qed

lemma mhap_line_overflow:
  "length (storage s) \<le> line_length s \<Longrightarrow> mhap_line s = Inl OutOfBounds"
  by (simp add: mhap_line_def store_write_def)

lemma paf_line_frame:
  assumes "paf_line s = Inr s2"
  shows "dst s2 = dst s \<and> num_objects s2 = num_objects s \<and> current_bytes s2 = current_bytes s \<and>
         length (storage s2) = length (storage s) \<and> line_length s2 \<le> line_length s \<and>
         values_length s < values_length s2 \<and> (values_length s < 12 \<longrightarrow> values_length s2 \<le> 12)"
proof -
  from assms obtain st where w: "store_write (line_length s) (CHR 0x00) (storage s) = Inr st"
    by (auto simp: paf_line_def split: sum.splits)
  from store_write_Inr [OF w] have l: "line_length s \<le> length st" "length st = length (storage s)"
    by simp_all
  from line_trim_frame [OF l(1)] obtain st' m where
    t: "line_trim st (line_length s) = Inr (st', m)" "m \<le> line_length s" "length st' = length st"
    by blast
  from assms w t have "paf_fields 0 (s\<lparr>storage := st', line_length := m\<rparr>) = Inr s2"
    by (simp add: paf_line_def)
  from paf_fields_frame [OF this] t l show ?thesis by simp
qed

lemma paf_line_no_overflow:
  assumes "line_length s < length (storage s)"
  shows "paf_line s \<noteq> Inl e"
proof -
  from assms have w: "store_write (line_length s) (CHR 0x00) (storage s) =
      Inr ((storage s)[line_length s := CHR 0x00])"
    by (simp add: store_write_def)
  let ?st = "(storage s)[line_length s := CHR 0x00]"
  have "line_length s \<le> length ?st" using assms by simp
  from line_trim_frame [OF this] obtain st' m where
    t: "line_trim ?st (line_length s) = Inr (st', m)" "m \<le> line_length s" "length st' = length ?st"
    by blast
  have "paf_fields 0 (s\<lparr>storage := st', line_length := m\<rparr>) \<noteq> Inl e"
    using t assms by (intro paf_fields_no_overflow) simp_all
  with w t show ?thesis by (simp add: paf_line_def)
qed

lemma paf_line_overflow:
  "length (storage s) \<le> line_length s \<Longrightarrow> paf_line s = Inl OutOfBounds"
  by (simp add: paf_line_def store_write_def)

lemma lines_of_not_Nil [simp]: "lines_of bs \<noteq> []"
  by (induction bs) (auto split: list.splits)

lemma lines_fit_lines_of:
  "k + length (hd (lines_of bs)) < cap \<Longrightarrow> \<forall>l\<in>set (tl (lines_of bs)). length l < cap \<Longrightarrow>
   lines_fit cap k bs"
proof (induction bs arbitrary: k)
  case Nil
  then show ?case by simp
next
  case (Cons c cs)
  show ?case
  proof (cases "c = CHR 0x0A")
    case True
    with Cons.prems have "\<forall>l\<in>set (lines_of cs). length l < cap" by simp
    then have "0 + length (hd (lines_of cs)) < cap" "\<forall>l\<in>set (tl (lines_of cs)). length l < cap"
      by (simp_all add: list.set_sel(2))
    from Cons.IH [OF this] Cons.prems True show ?thesis by simp
  next
    case False
    obtain l ls where ll: "lines_of cs = l # ls" by (cases "lines_of cs") auto
    with False Cons.prems have "(k + 1) + length (hd (lines_of cs)) < cap"
      "\<forall>l\<in>set (tl (lines_of cs)). length l < cap" by simp_all
    from Cons.IH [OF this] Cons.prems False show ?thesis by simp
  qed
qed

lemma lines_fit_all_lines:
  "\<forall>l\<in>set (lines_of bs). length l < cap \<Longrightarrow> lines_fit cap 0 bs"
  by (rule lines_fit_lines_of) (simp_all add: list.set_sel(2))

lemma lines_fit_prefix: "lines_fit cap k (xs @ ys) \<Longrightarrow> lines_fit cap k xs"
  by (induction xs arbitrary: k) auto

lemma mhap_byte_content:
  "c \<noteq> CHR 0x0A \<Longrightarrow>
   mhap_byte at_end c s =
     (if line_length s < length (storage s)
      then Inr (s\<lparr>current_bytes := current_bytes s + 1,
                  storage := (storage s)[line_length s := c],
                  line_length := line_length s + 1\<rparr>)
      else Inl OutOfBounds)"
  by (simp add: mhap_byte_def Let_def store_write_def)

lemma mhap_byte_newline:
  "mhap_byte at_end (CHR 0x0A) s =
     (case mhap_line (s\<lparr>current_bytes := current_bytes s + 1\<rparr>) of
        Inl e \<Rightarrow> Inl e
      | Inr s2 \<Rightarrow> mhap_complete s2)"
  by (simp add: mhap_byte_def Let_def)

lemma mhap_byte_frame:
  assumes "mhap_byte at_end c s = Inr s'"
  shows "length (storage s') = length (storage s) \<and>
         line_length s' = (if c = CHR 0x0A then 0 else line_length s + 1) \<and>
         values_length s' = (if c = CHR 0x0A then 0 else values_length s) \<and>
         length (dst s') + num_objects s = length (dst s) + num_objects s' \<and>
         (\<exists>new. dst s' = dst s @ new)"
proof (cases "c = CHR 0x0A")
  case True
  with assms obtain s2 where l: "mhap_line (s\<lparr>current_bytes := current_bytes s + 1\<rparr>) = Inr s2"
    and c: "mhap_complete s2 = Inr s'"
    by (auto simp: mhap_byte_newline split: sum.splits)
  from mhap_line_frame [OF l] c True show ?thesis
    by (auto simp: mhap_complete_def split: if_splits)
next
  case False
  with assms show ?thesis by (auto simp: mhap_byte_content split: if_splits)
qed

lemma mhap_byte_in_bounds:
  assumes "line_length s < length (storage s)"
  shows "mhap_byte at_end c s \<noteq> Inl OutOfBounds"
proof (cases "c = CHR 0x0A")
  case True
  have "mhap_line (s\<lparr>current_bytes := current_bytes s + 1\<rparr>) \<noteq> Inl e" for e
    using assms by (intro mhap_line_no_overflow) simp
  then show ?thesis
    using True by (auto simp: mhap_byte_newline mhap_complete_def split: sum.splits)
next
  case False
  with assms show ?thesis by (simp add: mhap_byte_content)
qed

lemma mhap_scan_in_bounds:
  "lines_fit (length (storage s)) (line_length s) bs \<Longrightarrow>
   scan mhap_byte e bs s \<noteq> Inl OutOfBounds"
proof (induction bs arbitrary: s)
  case Nil
  then show ?case by simp
next
  case (Cons c cs)
  from Cons.prems have k: "line_length s < length (storage s)"
    and rest: "lines_fit (length (storage s)) (if c = CHR 0x0A then 0 else line_length s + 1) cs"
    by simp_all
  show ?case
  proof (cases "mhap_byte (e \<and> cs = []) c s")
    case (Inl x)
    with mhap_byte_in_bounds [OF k, of "e \<and> cs = []" c] show ?thesis by auto
  next
    case (Inr s1)
    from mhap_byte_frame [OF Inr] rest
    have "lines_fit (length (storage s1)) (line_length s1) cs" by simp
    from Cons.IH [OF this] Inr show ?thesis by simp
  qed
qed

lemma mhap_scan_content:
  "CHR 0x0A \<notin> set xs \<Longrightarrow> line_length s + length xs \<le> length (storage s) \<Longrightarrow>
   \<exists>s'. scan mhap_byte False xs s = Inr s' \<and> line_length s' = line_length s + length xs \<and>
        length (storage s') = length (storage s)"
proof (induction xs arbitrary: s)
  case Nil
  then show ?case by simp
next
  case (Cons c cs)
  let ?s1 = "s\<lparr>current_bytes := current_bytes s + 1,
                storage := (storage s)[line_length s := c],
                line_length := line_length s + 1\<rparr>"
  from Cons.prems have cn: "c \<noteq> CHR 0x0A" by auto
  from Cons.prems have b: "mhap_byte False c s = Inr ?s1"
    by (simp add: mhap_byte_content [OF cn])
  from Cons.prems have "CHR 0x0A \<notin> set cs" "line_length ?s1 + length cs \<le> length (storage ?s1)"
    by simp_all
  from Cons.IH [OF this] b show ?case by auto
qed

lemma mhap_byte_overflow:
  "length (storage s) \<le> line_length s \<Longrightarrow> mhap_byte at_end c s = Inl OutOfBounds"
  by (cases "c = CHR 0x0A") (simp_all add: mhap_byte_content mhap_byte_newline mhap_line_overflow)

lemma mhap_scan_long_line:
  assumes "CHR 0x0A \<notin> set l" and "length (storage s) \<le> length l" and "line_length s = 0"
  shows "scan mhap_byte e (l @ CHR 0x0A # rest) s = Inl OutOfBounds"
proof -
  let ?cap = "length (storage s)"
  let ?xs = "take ?cap l"
  obtain c ys where cy: "drop ?cap l @ CHR 0x0A # rest = c # ys"
    by (cases "drop ?cap l @ CHR 0x0A # rest") auto
  have sp: "l @ CHR 0x0A # rest = ?xs @ c # ys"
    using cy by (metis append.assoc append_take_drop_id)
  have "CHR 0x0A \<notin> set ?xs" using assms(1) by (auto dest: in_set_takeD)
  moreover have "line_length s + length ?xs \<le> ?cap" using assms by simp
  ultimately obtain s1 where s1: "scan mhap_byte False ?xs s = Inr s1"
    "line_length s1 = line_length s + length ?xs" "length (storage s1) = ?cap"
    using mhap_scan_content by blast
  then have "length (storage s1) \<le> line_length s1" using assms by simp
  then have "mhap_byte (e \<and> ys = []) c s1 = Inl OutOfBounds" by (rule mhap_byte_overflow)
  with s1(1) show ?thesis unfolding sp by (rule scan_error_at)
qed

lemma paf_byte_content:
  "c \<noteq> CHR 0x0A \<Longrightarrow>
   paf_byte at_end c s =
     (if line_length s < length (storage s)
      then Inr (s\<lparr>current_bytes := current_bytes s + 1,
                  storage := (storage s)[line_length s := c],
                  line_length := line_length s + 1\<rparr>)
      else Inl OutOfBounds)"
  by (simp add: paf_byte_def Let_def store_write_def)

lemma paf_byte_newline:
  "paf_byte at_end (CHR 0x0A) s =
     (case paf_line (s\<lparr>current_bytes := current_bytes s + 1\<rparr>) of
        Inl e \<Rightarrow> Inl e
      | Inr s2 \<Rightarrow> paf_complete s2)"
  by (simp add: paf_byte_def Let_def)

lemma paf_byte_frame:
  assumes "paf_byte at_end c s = Inr s'"
  shows "length (storage s') = length (storage s) \<and>
         line_length s' = (if c = CHR 0x0A then 0 else line_length s + 1) \<and>
         values_length s' = (if c = CHR 0x0A then 0 else values_length s) \<and>
         length (dst s') + num_objects s = length (dst s) + num_objects s' \<and>
         (\<exists>new. dst s' = dst s @ new)"
proof (cases "c = CHR 0x0A")
  case True
  with assms obtain s2 where l: "paf_line (s\<lparr>current_bytes := current_bytes s + 1\<rparr>) = Inr s2"
    and c: "paf_complete s2 = Inr s'"
    by (auto simp: paf_byte_newline split: sum.splits)
  from paf_line_frame [OF l] c True show ?thesis
    by (auto simp: paf_complete_def Let_def split: if_splits)
next
  case False
  with assms show ?thesis by (auto simp: paf_byte_content split: if_splits)
qed

lemma paf_byte_in_bounds:
  assumes "line_length s < length (storage s)"
  shows "paf_byte at_end c s \<noteq> Inl OutOfBounds"
proof (cases "c = CHR 0x0A")
  case True
  have "paf_line (s\<lparr>current_bytes := current_bytes s + 1\<rparr>) \<noteq> Inl e" for e
    using assms by (intro paf_line_no_overflow) simp
  then show ?thesis
    using True by (auto simp: paf_byte_newline paf_complete_def Let_def split: sum.splits)
next
  case False
  with assms show ?thesis by (simp add: paf_byte_content)
qed

lemma paf_scan_in_bounds:
  "lines_fit (length (storage s)) (line_length s) bs \<Longrightarrow>
   scan paf_byte e bs s \<noteq> Inl OutOfBounds"
proof (induction bs arbitrary: s)
  case Nil
  then show ?case by simp
next
  case (Cons c cs)
  from Cons.prems have k: "line_length s < length (storage s)"
    and rest: "lines_fit (length (storage s)) (if c = CHR 0x0A then 0 else line_length s + 1) cs"
    by simp_all
  show ?case
  proof (cases "paf_byte (e \<and> cs = []) c s")
    case (Inl x)
    with paf_byte_in_bounds [OF k, of "e \<and> cs = []" c] show ?thesis by auto
  next
    case (Inr s1)
    from paf_byte_frame [OF Inr] rest
    have "lines_fit (length (storage s1)) (line_length s1) cs" by simp
    from Cons.IH [OF this] Inr show ?thesis by simp
  qed
qed

lemma paf_scan_content:
  "CHR 0x0A \<notin> set xs \<Longrightarrow> line_length s + length xs \<le> length (storage s) \<Longrightarrow>
   \<exists>s'. scan paf_byte False xs s = Inr s' \<and> line_length s' = line_length s + length xs \<and>
        length (storage s') = length (storage s)"
proof (induction xs arbitrary: s)
  case Nil
  then show ?case by simp
next
  case (Cons c cs)
  let ?s1 = "s\<lparr>current_bytes := current_bytes s + 1,
                storage := (storage s)[line_length s := c],
                line_length := line_length s + 1\<rparr>"
  from Cons.prems have cn: "c \<noteq> CHR 0x0A" by auto
  from Cons.prems have b: "paf_byte False c s = Inr ?s1"
    by (simp add: paf_byte_content [OF cn])
  from Cons.prems have "CHR 0x0A \<notin> set cs" "line_length ?s1 + length cs \<le> length (storage ?s1)"
    by simp_all
  from Cons.IH [OF this] b show ?case by auto
qed

lemma paf_byte_overflow:
  "length (storage s) \<le> line_length s \<Longrightarrow> paf_byte at_end c s = Inl OutOfBounds"
  by (cases "c = CHR 0x0A") (simp_all add: paf_byte_content paf_byte_newline paf_line_overflow)

lemma paf_scan_long_line:
  assumes "CHR 0x0A \<notin> set l" and "length (storage s) \<le> length l" and "line_length s = 0"
  shows "scan paf_byte e (l @ CHR 0x0A # rest) s = Inl OutOfBounds"
proof -
  let ?cap = "length (storage s)"
  let ?xs = "take ?cap l"
  obtain c ys where cy: "drop ?cap l @ CHR 0x0A # rest = c # ys"
    by (cases "drop ?cap l @ CHR 0x0A # rest") auto
  have sp: "l @ CHR 0x0A # rest = ?xs @ c # ys"
    using cy by (metis append.assoc append_take_drop_id)
  have "CHR 0x0A \<notin> set ?xs" using assms(1) by (auto dest: in_set_takeD)
  moreover have "line_length s + length ?xs \<le> ?cap" using assms by simp
  ultimately obtain s1 where s1: "scan paf_byte False ?xs s = Inr s1"
    "line_length s1 = line_length s + length ?xs" "length (storage s1) = ?cap"
    using paf_scan_content by blast
  then have "length (storage s1) \<le> line_length s1" using assms by simp
  then have "paf_byte (e \<and> ys = []) c s1 = Inl OutOfBounds" by (rule paf_byte_overflow)
  with s1(1) show ?thesis unfolding sp by (rule scan_error_at)
qed

lemma parse_objects_Inl_scan:
  assumes "parse_objects step init p d m = Inl x"
  shows "x = ChunkTooSmall \<or>
         (\<exists>e n. scan step e (take n (remaining (input_file p))) (init (storage_vec p) d) = Inl x)"
proof (cases "eof (input_file p)")
  case True
  with assms show ?thesis by (simp add: parse_objects_def)
next
  case False
  show ?thesis
  proof (cases "m = 0 \<or> length (remaining (input_file p)) \<le> m")
    case True
    then have "parse_objects step init p d m = parse_objects step init p d 0"
      using parse_objects_within_budget [of p m step init d] by auto
    with assms False have
      "scan step (length (remaining (input_file p)) mod kBufferSize \<noteq> 0)
         (take (length (remaining (input_file p))) (remaining (input_file p)))
         (init (storage_vec p) d) = Inl x"
      by (auto simp: parse_objects_unbounded split: sum.splits)
    then show ?thesis by blast
  next
    case over: False
    with assms False have "x = ChunkTooSmall \<or>
      scan step False (take (m div kBufferSize * kBufferSize) (remaining (input_file p)))
         (init (storage_vec p) d) = Inl x"
      by (auto simp: parse_objects_over_budget split: sum.splits if_splits)
    then show ?thesis by blast
  qed
qed

lemma mhap_parse_in_bounds:
  assumes "length (storage_vec p) = kSSS"
    and "\<forall>l\<in>set (lines_of (remaining (input_file p))). length l < kSSS"
  shows "MhapParser_parse_objects p dst0 max_bytes \<noteq> Inl OutOfBounds"
proof
  assume "MhapParser_parse_objects p dst0 max_bytes = Inl OutOfBounds"
  then have "parse_objects mhap_byte mhap_init p dst0 max_bytes = Inl OutOfBounds"
    by (simp add: MhapParser_parse_objects_def)
  from parse_objects_Inl_scan [OF this] obtain e n where
    sc: "scan mhap_byte e (take n (remaining (input_file p))) (mhap_init (storage_vec p) dst0) =
           Inl OutOfBounds" by auto
  have "lines_fit kSSS 0 (remaining (input_file p))"
    using assms(2) by (rule lines_fit_all_lines)
  then have "lines_fit kSSS 0 (take n (remaining (input_file p)))"
    using lines_fit_prefix [of kSSS 0 "take n (remaining (input_file p))"
        "drop n (remaining (input_file p))"] by simp
  then have "scan mhap_byte e (take n (remaining (input_file p)))
      (mhap_init (storage_vec p) dst0) \<noteq> Inl OutOfBounds"
    using assms(1) by (intro mhap_scan_in_bounds) (simp add: mhap_init_def)
  with sc show False by simp
qed

lemma paf_parse_in_bounds:
  assumes "length (storage_vec p) = 3 * kSSS"
    and "\<forall>l\<in>set (lines_of (remaining (input_file p))). length l < 3 * kSSS"
  shows "PafParser_parse_objects p dst0 max_bytes \<noteq> Inl OutOfBounds"
proof
  assume "PafParser_parse_objects p dst0 max_bytes = Inl OutOfBounds"
  then have "parse_objects paf_byte paf_init p dst0 max_bytes = Inl OutOfBounds"
    by (simp add: PafParser_parse_objects_def)
  from parse_objects_Inl_scan [OF this] obtain e n where
    sc: "scan paf_byte e (take n (remaining (input_file p))) (paf_init (storage_vec p) dst0) =
           Inl OutOfBounds" by auto
  have "lines_fit (3 * kSSS) 0 (remaining (input_file p))"
    using assms(2) by (rule lines_fit_all_lines)
  then have "lines_fit (3 * kSSS) 0 (take n (remaining (input_file p)))"
    using lines_fit_prefix [of "3 * kSSS" 0 "take n (remaining (input_file p))"
        "drop n (remaining (input_file p))"] by simp
  then have "scan paf_byte e (take n (remaining (input_file p)))
      (paf_init (storage_vec p) dst0) \<noteq> Inl OutOfBounds"
    using assms(1) by (intro paf_scan_in_bounds) (simp add: paf_init_def)
  with sc show False by simp
qed

lemma mhap_parse_long_line:
  assumes "length (storage_vec p) = kSSS" and "\<not> eof (input_file p)"
    and "remaining (input_file p) = l @ CHR 0x0A # rest"
    and "CHR 0x0A \<notin> set l" and "kSSS \<le> length l"
  shows "MhapParser_parse_objects p dst0 0 = Inl OutOfBounds"
proof -
  have "scan mhap_byte (length (remaining (input_file p)) mod kBufferSize \<noteq> 0)
          (l @ CHR 0x0A # rest) (mhap_init (storage_vec p) dst0) = Inl OutOfBounds"
    using assms(1,4,5) by (intro mhap_scan_long_line) (simp_all add: mhap_init_def)
  then show ?thesis
    using assms(2,3) by (simp add: MhapParser_parse_objects_def parse_objects_unbounded)
qed

lemma paf_parse_long_line:
  assumes "length (storage_vec p) = 3 * kSSS" and "\<not> eof (input_file p)"
    and "remaining (input_file p) = l @ CHR 0x0A # rest"
    and "CHR 0x0A \<notin> set l" and "3 * kSSS \<le> length l"
  shows "PafParser_parse_objects p dst0 0 = Inl OutOfBounds"
proof -
  have "scan paf_byte (length (remaining (input_file p)) mod kBufferSize \<noteq> 0)
          (l @ CHR 0x0A # rest) (paf_init (storage_vec p) dst0) = Inl OutOfBounds"
    using assms(1,4,5) by (intro paf_scan_long_line) (simp_all add: paf_init_def)
  then show ?thesis
    using assms(2,3) by (simp add: PafParser_parse_objects_def parse_objects_unbounded)
qed

text \<open>
  C10: the MHAP and PAF parsers write every byte of a line, and the zero byte at its
  newline, at index \<^verbatim>\<open>line_length\<close> of a storage of \<open>kSSS\<close> respectively \<open>3 * kSSS\<close>
  bytes.  When every line of the input that remains (the part after the last newline
  included) has fewer than that many bytes, no call reaches the out-of-bounds branch,
  with or without a budget.  When the first remaining line has at least that many bytes
  before its newline, a call without a budget reaches it.
\<close>

theorem C10_line_buffer_bounds:
  "(length (storage_vec p) = kSSS \<and>
    (\<forall>l\<in>set (lines_of (remaining (input_file p))). length l < kSSS) \<longrightarrow>
      MhapParser_parse_objects p dst0 max_bytes \<noteq> Inl OutOfBounds) \<and>
   (length (storage_vec q) = 3 * kSSS \<and>
    (\<forall>l\<in>set (lines_of (remaining (input_file q))). length l < 3 * kSSS) \<longrightarrow>
      PafParser_parse_objects q dst1 max_bytes1 \<noteq> Inl OutOfBounds) \<and>
   (length (storage_vec p2) = kSSS \<and> \<not> eof (input_file p2) \<and>
    remaining (input_file p2) = l2 @ CHR 0x0A # rest2 \<and> CHR 0x0A \<notin> set l2 \<and>
    kSSS \<le> length l2 \<longrightarrow>
      MhapParser_parse_objects p2 dst2 0 = Inl OutOfBounds) \<and>
   (length (storage_vec q2) = 3 * kSSS \<and> \<not> eof (input_file q2) \<and>
    remaining (input_file q2) = l3 @ CHR 0x0A # rest3 \<and> CHR 0x0A \<notin> set l3 \<and>
    3 * kSSS \<le> length l3 \<longrightarrow>
      PafParser_parse_objects q2 dst3 0 = Inl OutOfBounds)"
  using mhap_parse_in_bounds [of p dst0 max_bytes] paf_parse_in_bounds [of q dst1 max_bytes1]
    mhap_parse_long_line [of p2 l2 rest2 dst2] paf_parse_long_line [of q2 l3 rest3 dst3]
  by blast

theorem C10_line_buffer_bounds_witness:
  "(length (storage_vec (MhapParser (fopen ''1 2 3 4 5 6 7 8 9 1 2 3\<newline>''))) = kSSS \<and>
    lines_of (remaining (input_file (MhapParser (fopen ''1 2 3 4 5 6 7 8 9 1 2 3\<newline>'')))) =
      [''1 2 3 4 5 6 7 8 9 1 2 3'', []] \<and>
    length ''1 2 3 4 5 6 7 8 9 1 2 3'' < kSSS \<and>
    MhapParser_parse_objects (MhapParser (fopen ''1 2 3 4 5 6 7 8 9 1 2 3\<newline>'')) [] 0 \<noteq>
      Inl OutOfBounds) \<and>
   (length (storage_vec (PafParser (fopen ''a\<newline>''))) = 3 * kSSS \<and>
    lines_of (remaining (input_file (PafParser (fopen ''a\<newline>'')))) = [''a'', []] \<and>
    length ''a'' < 3 * kSSS \<and>
    PafParser_parse_objects (PafParser (fopen ''a\<newline>'')) [] 0 \<noteq> Inl OutOfBounds) \<and>
   (length (storage_vec (MhapParser (fopen (replicate 1024 (CHR ''1'') @ [CHR 0x0A])))) = kSSS \<and>
    \<not> eof (input_file (MhapParser (fopen (replicate 1024 (CHR ''1'') @ [CHR 0x0A])))) \<and>
    remaining (input_file (MhapParser (fopen (replicate 1024 (CHR ''1'') @ [CHR 0x0A])))) =
      replicate 1024 (CHR ''1'') @ CHR 0x0A # [] \<and>
    CHR 0x0A \<notin> set (replicate 1024 (CHR ''1'')) \<and>
    kSSS \<le> length (replicate 1024 (CHR ''1'')) \<and>
    MhapParser_parse_objects (MhapParser (fopen (replicate 1024 (CHR ''1'') @ [CHR 0x0A]))) [] 0 =
      Inl OutOfBounds) \<and>
   (length (storage_vec (PafParser (fopen (replicate 3072 (CHR ''a'') @ [CHR 0x0A])))) = 3 * kSSS \<and>
    \<not> eof (input_file (PafParser (fopen (replicate 3072 (CHR ''a'') @ [CHR 0x0A])))) \<and>
    remaining (input_file (PafParser (fopen (replicate 3072 (CHR ''a'') @ [CHR 0x0A])))) =
      replicate 3072 (CHR ''a'') @ CHR 0x0A # [] \<and>
    CHR 0x0A \<notin> set (replicate 3072 (CHR ''a'')) \<and>
    3 * kSSS \<le> length (replicate 3072 (CHR ''a'')) \<and>
    PafParser_parse_objects (PafParser (fopen (replicate 3072 (CHR ''a'') @ [CHR 0x0A]))) [] 0 =
      Inl OutOfBounds)"
  using C10_line_buffer_bounds
    [of "MhapParser (fopen ''1 2 3 4 5 6 7 8 9 1 2 3\<newline>'')" "[]" 0
        "PafParser (fopen ''a\<newline>'')" "[]" 0
        "MhapParser (fopen (replicate 1024 (CHR ''1'') @ [CHR 0x0A]))"
        "replicate 1024 (CHR ''1'')" "[]" "[]"
        "PafParser (fopen (replicate 3072 (CHR ''a'') @ [CHR 0x0A]))"
        "replicate 3072 (CHR ''a'')" "[]" "[]"]
  by (simp add: MhapParser_def PafParser_def Parser_def fopen_def remaining_def kSSS_def)

section \<open>Field counts of the MHAP and PAF parsers\<close>









lemmas line_eval = mhap_defs paf_defs upt_rec mhap_init_def paf_init_def

section \<open>A stream whose last read is a full buffer\<close>

lemma fasta_byte_data:
  assumes "line_number s \<noteq> 0" and "c \<noteq> CHR 0x0A" and "c \<noteq> CHR ''>''"
    and "data_length s + 1 < kMSS" and "kSSS + data_length s < length (storage s)"
  shows "fasta_byte False c s =
     Inr (s\<lparr>storage := (storage s)[kSSS + data_length s := c],
            current_bytes := current_bytes s + 1,
            data_length := data_length s + 1\<rparr>)"
  using assms by (simp add: fasta_byte_def fasta_char_def store_write_def Let_def)

lemma update_run:
  assumes "k + n < length st"
  shows "take (Suc k) (st[k := c]) @ replicate n c @ drop (Suc k + n) (st[k := c]) =
         take k st @ replicate (Suc n) c @ drop (k + Suc n) st"
proof -
  have "take (Suc k) (st[k := c]) = take k st @ [c]"
    using assms by (simp add: take_Suc_conv_app_nth)
  moreover have "drop (Suc k + n) (st[k := c]) = drop (k + Suc n) st"
    by simp
  ultimately show ?thesis by (simp add: replicate_app_Cons_same)
qed

lemma fasta_scan_data_run:
  assumes "line_number s \<noteq> 0" and "c \<noteq> CHR 0x0A" and "c \<noteq> CHR ''>''"
    and "data_length s + n < kMSS" and "kSSS + data_length s + n \<le> length (storage s)"
  shows "scan fasta_byte False (replicate n c) s =
     Inr (s\<lparr>storage := take (kSSS + data_length s) (storage s) @ replicate n c @
                         drop (kSSS + data_length s + n) (storage s),
            current_bytes := current_bytes s + n,
            data_length := data_length s + n\<rparr>)"
  using assms
proof (induction n arbitrary: s)
  case 0
  then show ?case by simp
next
  case (Suc n)
  let ?k = "kSSS + data_length s"
  let ?s1 = "s\<lparr>storage := (storage s)[?k := c],
            current_bytes := current_bytes s + 1,
            data_length := data_length s + 1\<rparr>"
  have b: "fasta_byte False c s = Inr ?s1"
    using Suc.prems by (intro fasta_byte_data) simp_all
  have ih: "scan fasta_byte False (replicate n c) ?s1 =
     Inr (?s1\<lparr>storage := take (kSSS + data_length ?s1) (storage ?s1) @ replicate n c @
                         drop (kSSS + data_length ?s1 + n) (storage ?s1),
            current_bytes := current_bytes ?s1 + n,
            data_length := data_length ?s1 + n\<rparr>)"
    using Suc.prems by (intro Suc.IH) simp_all
  have u: "take (Suc ?k) ((storage s)[?k := c]) @ replicate n c @
        drop (Suc ?k + n) ((storage s)[?k := c]) =
      take ?k (storage s) @ replicate (Suc n) c @ drop (?k + Suc n) (storage s)"
    using Suc.prems by (intro update_run) simp
  show ?case
    using b ih u by simp
qed

lemma region_run:
  assumes "length xs = off"
  shows "region (xs @ replicate n c @ ys) off n = replicate n c"
proof -
  have "map (\<lambda>i. (xs @ replicate n c @ ys) ! i) [off..<off + n] =
        map (\<lambda>i. c) [off..<off + n]"
    using assms by (intro map_cong) (auto simp: nth_append)
  then show ?thesis by (simp add: region_def map_replicate_const)
qed

lemma region_Suc_0: "region st off (Suc 0) = [st ! off]"
  by (simp add: region_def)

lemmas fasta_run_defs = fasta_three_records_def
  fasta_byte_def fasta_char_def fasta_complete_def fasta_init_def Let_def store_write_def
  isspace_def rtrim_unfold constants_defs region_Suc_0 region_run nth_append
  scan_append fasta_scan_data_run remaining_def FastaParser_parse_objects_def

lemma fasta_example_unbounded:
  assumes "length st = 8389632"
  shows "FastaParser_parse_objects
     \<lparr>input_file =
        \<lparr>content = fasta_three_records,
         pos = 0, eof = False\<rparr>,
      storage_vec = st\<rparr> d 0 =
    Inr (False,
         \<lparr>input_file =
            \<lparr>content = fasta_three_records,
             pos = 65541, eof = True\<rparr>,
          storage_vec =
            (take 1024 (st[0 := CHR ''>'', Suc 0 := CHR ''a'', 1024 := CHR ''C'',
                           Suc 0 := CHR ''b'']) @
             replicate 65527 (CHR ''A'') @ drop 66551 st)
            [Suc 0 := CHR ''c'', 1024 := CHR ''G'']\<rparr>,
         d @ [FastaObject ''a'' ''C'', FastaObject ''b'' (replicate 65527 (CHR ''A'')),
              FastaObject ''c'' ''G''])"
  using assms by (simp add: parse_objects_unbounded fasta_run_defs)

lemma fasta_example_first_chunk:
  assumes "length st = 8389632"
  shows "FastaParser_parse_objects
     \<lparr>input_file =
        \<lparr>content = fasta_three_records,
         pos = 0, eof = False\<rparr>,
      storage_vec = st\<rparr> d 65536 =
    Inr (True,
         \<lparr>input_file =
            \<lparr>content = fasta_three_records,
             pos = 5, eof = False\<rparr>,
          storage_vec =
            take 1024 (st[0 := CHR ''>'', Suc 0 := CHR ''a'', 1024 := CHR ''C'',
                          Suc 0 := CHR ''b'']) @
            replicate 65527 (CHR ''A'') @ drop 66551 st\<rparr>,
         d @ [FastaObject ''a'' ''C''])"
  using assms
  by (simp add: parse_objects_over_budget fasta_run_defs fseek_back_def fread_file_def
      fread_data_def)

lemma fasta_example_second_chunk:
  assumes "length st = 8389632"
  shows "FastaParser_parse_objects
     \<lparr>input_file =
        \<lparr>content = fasta_three_records,
         pos = 5, eof = False\<rparr>,
      storage_vec = st\<rparr> d 65536 =
    Inr (False,
         \<lparr>input_file =
            \<lparr>content = fasta_three_records,
             pos = 65541, eof = True\<rparr>,
          storage_vec =
            (take 1024 (st[0 := CHR ''>'', Suc 0 := CHR ''b'']) @
             replicate 65527 (CHR ''A'') @ drop 66551 st)
            [Suc 0 := CHR ''c'', 1024 := CHR ''G'']\<rparr>,
         d @ [FastaObject ''b'' (replicate 65527 (CHR ''A''))])"
  using assms
  by (simp add: parse_objects_within_budget parse_objects_unbounded fasta_run_defs)

lemma fasta_example_chunks:
  assumes "length st = 8389632"
  shows "map_option (map_sum id snd)
     (parse_in_chunks FastaParser_parse_objects (Suc (Suc calls)) 65536
        \<lparr>input_file =
           \<lparr>content = fasta_three_records,
            pos = 0, eof = False\<rparr>,
         storage_vec = st\<rparr> []) =
    Some (Inr [FastaObject ''a'' ''C'', FastaObject ''b'' (replicate 65527 (CHR ''A''))])"
proof -
  let ?st1 = "take 1024 (st[0 := CHR ''>'', Suc 0 := CHR ''a'', 1024 := CHR ''C'',
                          Suc 0 := CHR ''b'']) @
            replicate 65527 (CHR ''A'') @ drop 66551 st"
  have l1: "length ?st1 = 8389632" using assms by simp
  show ?thesis
    by (simp add: fasta_example_first_chunk [OF assms] fasta_example_second_chunk [OF l1])
qed

lemma FastaParser_fopen:
  "FastaParser (fopen cs) =
     \<lparr>input_file = \<lparr>content = cs, pos = 0, eof = False\<rparr>,
      storage_vec = replicate (kSSS + kMSS) (CHR 0x00)\<rparr>"
  by (simp add: FastaParser_def Parser_def fopen_def)

lemma reset_parser:
  "reset \<lparr>input_file = \<lparr>content = cs, pos = n, eof = e\<rparr>, storage_vec = st\<rparr> =
     \<lparr>input_file = \<lparr>content = cs, pos = 0, eof = False\<rparr>, storage_vec = st\<rparr>"
  by (simp add: reset_def fseek_start_def)

section \<open>Calls with a byte budget\<close>

lemma scan_counts:
  assumes "counts_records step" and "scan step e bs s = Inr s'"
  shows "current_bytes s' \<le> current_bytes s + length bs \<and>
         length (dst s') + num_objects s = length (dst s) + num_objects s' \<and>
         (\<exists>new. dst s' = dst s @ new)"
  using assms(2)
proof (induction bs arbitrary: s)
  case Nil
  then show ?case by simp
next
  case (Cons c cs)
  from Cons.prems obtain s1 where s1: "step (e \<and> cs = []) c s = Inr s1"
    and rest: "scan step e cs s1 = Inr s'"
    by (auto split: sum.splits)
  from assms(1) s1 have a: "current_bytes s1 \<le> current_bytes s + 1"
    "length (dst s1) + num_objects s = length (dst s) + num_objects s1"
    "\<exists>new. dst s1 = dst s @ new"
    unfolding counts_records_def by blast+
  from Cons.IH [OF rest] a show ?case by auto
qed

lemma budget_branch:
  assumes cr: "counts_records step"
    and ne: "\<not> eof (input_file p)" and m: "max_bytes \<noteq> 0"
    and over: "max_bytes < length (remaining (input_file p))"
    and sc: "scan step False (take (in_budget max_bytes) (remaining (input_file p)))
               (init (storage_vec p) dst0) = Inr s"
    and i: "current_bytes (init (storage_vec p) dst0) = 0"
      "num_objects (init (storage_vec p) dst0) = 0" "dst (init (storage_vec p) dst0) = dst0"
  shows "parse_objects step init p dst0 max_bytes =
     (if dst s = dst0 then Inl ChunkTooSmall
      else Inr (True,
             \<lparr>input_file = (input_file p)\<lparr>pos := pos (input_file p) + in_budget max_bytes -
                                              current_bytes s, eof := False\<rparr>,
              storage_vec = storage s\<rparr>, dst s))"
proof -
  let ?f = "input_file p"
  let ?n = "in_budget max_bytes"
  from scan_counts [OF cr sc] i
  have cur: "current_bytes s \<le> length (take ?n (remaining ?f))"
    and len: "length (dst s) = length dst0 + num_objects s"
    and ext: "\<exists>new. dst s = dst0 @ new"
    by auto
  have z: "num_objects s = 0 \<longleftrightarrow> dst s = dst0"
    using len ext by auto
  have cn: "current_bytes s \<le> ?n" using cur by simp
  let ?fn = "?f\<lparr>pos := pos ?f + ?n\<rparr>"
  let ?r = "length (fread_data kBufferSize ?fn)"
  have "fseek_back (current_bytes s + ?r) (fread_file kBufferSize ?fn) =
      ?f\<lparr>pos := pos ?f + ?n - current_bytes s, eof := False\<rparr>"
    using cn by (simp add: fseek_back_def fread_file_def)
  then show ?thesis
    using parse_objects_over_budget [OF ne m over, of step init dst0] sc z
    by (simp add: in_budget_def)
qed

lemma no_budget_effect:
  "length (remaining (input_file p)) \<le> max_bytes \<Longrightarrow>
   parse_objects step init p dst0 max_bytes = parse_objects step init p dst0 0"
  by (rule parse_objects_within_budget)

lemma fasta_complete_counts:
  "fasta_complete s = Inr s' \<Longrightarrow>
   current_bytes s' = 1 \<and> num_objects s' = num_objects s + 1 \<and> (\<exists>r. dst s' = dst s @ [r])"
  by (auto simp: fasta_complete_def Let_def split: if_splits)

lemma fasta_char_counts:
  "fasta_char a c s = Inr (s1, v) \<Longrightarrow>
   current_bytes s1 = current_bytes s \<and> num_objects s1 = num_objects s \<and> dst s1 = dst s"
  by (auto simp: fasta_char_def split: if_splits sum.splits)

lemma counts_records_fasta: "counts_records fasta_byte"
  unfolding counts_records_def
proof (intro allI impI)
  fix a c s s'
  assume b: "fasta_byte a c s = Inr s'"
  then obtain s1 v where c: "fasta_char a c s = Inr (s1, v)"
    by (cases "fasta_char a c s") (auto simp: fasta_byte_def)
  note f = fasta_char_counts [OF c]
  show "current_bytes s' \<le> current_bytes s + 1 \<and>
        length (dst s') + num_objects s = length (dst s) + num_objects s' \<and>
        (\<exists>new. dst s' = dst s @ new)"
  proof (cases v)
    case True
    with b c have "fasta_complete (s1\<lparr>current_bytes := current_bytes s1 + 1\<rparr>) = Inr s'"
      by (simp add: fasta_byte_def Let_def)
    from fasta_complete_counts [OF this] f show ?thesis by auto
  next
    case False
    with b c have "s' = s1\<lparr>current_bytes := current_bytes s1 + 1\<rparr>"
      by (simp add: fasta_byte_def Let_def)
    with f show ?thesis by simp
  qed
qed

lemma fastq_complete_counts:
  "fastq_complete s = Inr s' \<Longrightarrow>
   current_bytes s' = 0 \<and> num_objects s' = num_objects s + 1 \<and> (\<exists>r. dst s' = dst s @ [r])"
  by (auto simp: fastq_complete_def Let_def split: if_splits)

lemma fastq_char_counts:
  "fastq_char a c s = Inr (s1, v) \<Longrightarrow>
   current_bytes s1 = current_bytes s \<and> num_objects s1 = num_objects s \<and> dst s1 = dst s"
  by (auto simp: fastq_char_def Let_def split: if_splits sum.splits)

lemma counts_records_fastq: "counts_records fastq_byte"
  unfolding counts_records_def
proof (intro allI impI)
  fix a c s s'
  assume b: "fastq_byte a c s = Inr s'"
  then obtain s1 v where c: "fastq_char a c s = Inr (s1, v)"
    by (cases "fastq_char a c s") (auto simp: fastq_byte_def)
  note f = fastq_char_counts [OF c]
  show "current_bytes s' \<le> current_bytes s + 1 \<and>
        length (dst s') + num_objects s = length (dst s) + num_objects s' \<and>
        (\<exists>new. dst s' = dst s @ new)"
  proof (cases v)
    case True
    with b c have "fastq_complete (s1\<lparr>current_bytes := current_bytes s1 + 1\<rparr>) = Inr s'"
      by (simp add: fastq_byte_def Let_def)
    from fastq_complete_counts [OF this] f show ?thesis by auto
  next
    case False
    with b c have "s' = s1\<lparr>current_bytes := current_bytes s1 + 1\<rparr>"
      by (simp add: fastq_byte_def Let_def)
    with f show ?thesis by simp
  qed
qed

lemma counts_records_mhap: "counts_records mhap_byte"
  unfolding counts_records_def
proof (intro allI impI)
  fix a c s s'
  assume b: "mhap_byte a c s = Inr s'"
  have "current_bytes s' \<le> current_bytes s + 1"
  proof (cases "c = CHR 0x0A")
    case True
    with b obtain s2 where "mhap_complete s2 = Inr s'"
      by (auto simp: mhap_byte_newline split: sum.splits)
    then show ?thesis by (auto simp: mhap_complete_def split: if_splits)
  next
    case False
    with b show ?thesis by (auto simp: mhap_byte_content split: if_splits)
  qed
  with mhap_byte_frame [OF b]
  show "current_bytes s' \<le> current_bytes s + 1 \<and>
        length (dst s') + num_objects s = length (dst s) + num_objects s' \<and>
        (\<exists>new. dst s' = dst s @ new)" by simp
qed

lemma counts_records_paf: "counts_records paf_byte"
  unfolding counts_records_def
proof (intro allI impI)
  fix a c s s'
  assume b: "paf_byte a c s = Inr s'"
  have "current_bytes s' \<le> current_bytes s + 1"
  proof (cases "c = CHR 0x0A")
    case True
    with b obtain s2 where "paf_complete s2 = Inr s'"
      by (auto simp: paf_byte_newline split: sum.splits)
    then show ?thesis by (auto simp: paf_complete_def Let_def split: if_splits)
  next
    case False
    with b show ?thesis by (auto simp: paf_byte_content split: if_splits)
  qed
  with paf_byte_frame [OF b]
  show "current_bytes s' \<le> current_bytes s + 1 \<and>
        length (dst s') + num_objects s = length (dst s) + num_objects s' \<and>
        (\<exists>new. dst s' = dst s @ new)" by simp
qed

lemma init_fields:
  "current_bytes (fasta_init st (d1 :: fasta_object list)) = 0"
  "num_objects (fasta_init st d1) = 0" "dst (fasta_init st d1) = d1"
  "current_bytes (fastq_init st (d2 :: fastq_object list)) = 0"
  "num_objects (fastq_init st d2) = 0" "dst (fastq_init st d2) = d2"
  "current_bytes (mhap_init st (d3 :: mhap_object list)) = 0"
  "num_objects (mhap_init st d3) = 0" "dst (mhap_init st d3) = d3"
  "current_bytes (paf_init st (d4 :: paf_object list)) = 0"
  "num_objects (paf_init st d4) = 0" "dst (paf_init st d4) = d4"
  by (simp_all add: fasta_init_def fastq_init_def mhap_init_def paf_init_def)

text \<open>
  C2: a call with a budget \<open>max_bytes \<noteq> 0\<close> smaller than what is left of the stream stops at
  the read that takes the total over the budget, having scanned the \<open>in_budget max_bytes\<close>
  bytes of the reads before it. If that scan completed no record the call fails with
  \<open>ChunkTooSmall\<close>; otherwise it returns \<^verbatim>\<open>true\<close> with exactly the records that scan
  completed, and the stream is put back by \<open>current_bytes\<close>, the bytes read since the last
  completed record, so that the bytes of the record in progress are read again by the
  next call. The same holds in each of the four parsers.
\<close>

theorem C2_budget_exceeded:
  "(\<not> eof (input_file pa) \<and> ma \<noteq> 0 \<and> ma < length (remaining (input_file pa)) \<and>
    scan fasta_byte False (take (in_budget ma) (remaining (input_file pa)))
      (fasta_init (storage_vec pa) da) = Inr sa \<longrightarrow>
    FastaParser_parse_objects pa da ma =
      (if dst sa = da then Inl ChunkTooSmall
       else Inr (True,
              \<lparr>input_file = (input_file pa)
                 \<lparr>pos := pos (input_file pa) + in_budget ma - current_bytes sa, eof := False\<rparr>,
               storage_vec = storage sa\<rparr>, dst sa))) \<and>
   (\<not> eof (input_file pq) \<and> mq \<noteq> 0 \<and> mq < length (remaining (input_file pq)) \<and>
    scan fastq_byte False (take (in_budget mq) (remaining (input_file pq)))
      (fastq_init (storage_vec pq) dq) = Inr sq \<longrightarrow>
    FastqParser_parse_objects pq dq mq =
      (if dst sq = dq then Inl ChunkTooSmall
       else Inr (True,
              \<lparr>input_file = (input_file pq)
                 \<lparr>pos := pos (input_file pq) + in_budget mq - current_bytes sq, eof := False\<rparr>,
               storage_vec = storage sq\<rparr>, dst sq))) \<and>
   (\<not> eof (input_file pm) \<and> mm \<noteq> 0 \<and> mm < length (remaining (input_file pm)) \<and>
    scan mhap_byte False (take (in_budget mm) (remaining (input_file pm)))
      (mhap_init (storage_vec pm) dm) = Inr sm \<longrightarrow>
    MhapParser_parse_objects pm dm mm =
      (if dst sm = dm then Inl ChunkTooSmall
       else Inr (True,
              \<lparr>input_file = (input_file pm)
                 \<lparr>pos := pos (input_file pm) + in_budget mm - current_bytes sm, eof := False\<rparr>,
               storage_vec = storage sm\<rparr>, dst sm))) \<and>
   (\<not> eof (input_file pp) \<and> mp \<noteq> 0 \<and> mp < length (remaining (input_file pp)) \<and>
    scan paf_byte False (take (in_budget mp) (remaining (input_file pp)))
      (paf_init (storage_vec pp) dp) = Inr sp \<longrightarrow>
    PafParser_parse_objects pp dp mp =
      (if dst sp = dp then Inl ChunkTooSmall
       else Inr (True,
              \<lparr>input_file = (input_file pp)
                 \<lparr>pos := pos (input_file pp) + in_budget mp - current_bytes sp, eof := False\<rparr>,
               storage_vec = storage sp\<rparr>, dst sp)))"
proof (intro conjI impI)
  assume "\<not> eof (input_file pa) \<and> ma \<noteq> 0 \<and> ma < length (remaining (input_file pa)) \<and>
    scan fasta_byte False (take (in_budget ma) (remaining (input_file pa)))
      (fasta_init (storage_vec pa) da) = Inr sa"
  then show "FastaParser_parse_objects pa da ma =
      (if dst sa = da then Inl ChunkTooSmall
       else Inr (True,
              \<lparr>input_file = (input_file pa)
                 \<lparr>pos := pos (input_file pa) + in_budget ma - current_bytes sa, eof := False\<rparr>,
               storage_vec = storage sa\<rparr>, dst sa))"
    unfolding FastaParser_parse_objects_def
    by (intro budget_branch counts_records_fasta init_fields) simp_all
next
  assume "\<not> eof (input_file pq) \<and> mq \<noteq> 0 \<and> mq < length (remaining (input_file pq)) \<and>
    scan fastq_byte False (take (in_budget mq) (remaining (input_file pq)))
      (fastq_init (storage_vec pq) dq) = Inr sq"
  then show "FastqParser_parse_objects pq dq mq =
      (if dst sq = dq then Inl ChunkTooSmall
       else Inr (True,
              \<lparr>input_file = (input_file pq)
                 \<lparr>pos := pos (input_file pq) + in_budget mq - current_bytes sq, eof := False\<rparr>,
               storage_vec = storage sq\<rparr>, dst sq))"
    unfolding FastqParser_parse_objects_def
    by (intro budget_branch counts_records_fastq init_fields) simp_all
next
  assume "\<not> eof (input_file pm) \<and> mm \<noteq> 0 \<and> mm < length (remaining (input_file pm)) \<and>
    scan mhap_byte False (take (in_budget mm) (remaining (input_file pm)))
      (mhap_init (storage_vec pm) dm) = Inr sm"
  then show "MhapParser_parse_objects pm dm mm =
      (if dst sm = dm then Inl ChunkTooSmall
       else Inr (True,
              \<lparr>input_file = (input_file pm)
                 \<lparr>pos := pos (input_file pm) + in_budget mm - current_bytes sm, eof := False\<rparr>,
               storage_vec = storage sm\<rparr>, dst sm))"
    unfolding MhapParser_parse_objects_def
    by (intro budget_branch counts_records_mhap init_fields) simp_all
next
  assume "\<not> eof (input_file pp) \<and> mp \<noteq> 0 \<and> mp < length (remaining (input_file pp)) \<and>
    scan paf_byte False (take (in_budget mp) (remaining (input_file pp)))
      (paf_init (storage_vec pp) dp) = Inr sp"
  then show "PafParser_parse_objects pp dp mp =
      (if dst sp = dp then Inl ChunkTooSmall
       else Inr (True,
              \<lparr>input_file = (input_file pp)
                 \<lparr>pos := pos (input_file pp) + in_budget mp - current_bytes sp, eof := False\<rparr>,
               storage_vec = storage sp\<rparr>, dst sp))"
    unfolding PafParser_parse_objects_def
    by (intro budget_branch counts_records_paf init_fields) simp_all
qed

theorem C2_budget_exceeded_witness:
  "65536 < length (remaining (input_file (FastaParser (fopen fasta_three_records)))) \<and>
   map_sum id (\<lambda>(status, p, d). (status, pos (input_file p), eof (input_file p), d))
     (FastaParser_parse_objects (FastaParser (fopen fasta_three_records)) [] 65536) =
     Inr (True, 5, False, [FastaObject ''a'' ''C'']) \<and>
   4 < length (remaining (input_file (FastqParser (fopen ''@a\<newline>AC\<newline>+\<newline>II\<newline>'')))) \<and>
   FastqParser_parse_objects (FastqParser (fopen ''@a\<newline>AC\<newline>+\<newline>II\<newline>'')) [] 4 =
     Inl ChunkTooSmall \<and>
   MhapParser_parse_objects (MhapParser (fopen ''1 2 3 4 5 6 7 8 9 1 2 3\<newline>'')) [] 4 =
     Inl ChunkTooSmall \<and>
   PafParser_parse_objects (PafParser (fopen ''a 1 2 3 + b 4 5 6 7 8 9\<newline>'')) [] 4 =
     Inl ChunkTooSmall"
proof -
  let ?pa = "FastaParser (fopen fasta_three_records)"
  let ?pq = "FastqParser (fopen ''@a\<newline>AC\<newline>+\<newline>II\<newline>'')"
  let ?pm = "MhapParser (fopen ''1 2 3 4 5 6 7 8 9 1 2 3\<newline>'')"
  let ?pp = "PafParser (fopen ''a 1 2 3 + b 4 5 6 7 8 9\<newline>'')"
  have b: "in_budget 65536 = 65536" "in_budget 4 = 0"
    by (simp_all add: in_budget_def kBufferSize_def)
  have la: "65536 < length (remaining (input_file ?pa))" "\<not> eof (input_file ?pa)"
    "pos (input_file ?pa) = 0"
    by (simp_all add: FastaParser_fopen remaining_def fasta_three_records_def)
  obtain sa where sa: "scan fasta_byte False (take (in_budget 65536) (remaining (input_file ?pa)))
      (fasta_init (storage_vec ?pa) []) = Inr sa"
    and da: "dst sa = [FastaObject ''a'' ''C'']" and ca: "current_bytes sa = 65531"
    unfolding b FastaParser_fopen by (simp add: fasta_run_defs)
  have lq: "4 < length (remaining (input_file ?pq))" "\<not> eof (input_file ?pq)"
    by (simp_all add: FastqParser_def Parser_def fopen_def remaining_def)
  have lm: "4 < length (remaining (input_file ?pm))" "\<not> eof (input_file ?pm)"
    by (simp_all add: MhapParser_def Parser_def fopen_def remaining_def)
  have lp: "4 < length (remaining (input_file ?pp))" "\<not> eof (input_file ?pp)"
    by (simp_all add: PafParser_def Parser_def fopen_def remaining_def)
  note T = C2_budget_exceeded [where pa = ?pa and ma = 65536 and da = "[]" and sa = sa
      and pq = ?pq and mq = 4 and dq = "[]" and sq = "fastq_init (storage_vec ?pq) []"
      and pm = ?pm and mm = 4 and dm = "[]" and sm = "mhap_init (storage_vec ?pm) []"
      and pp = ?pp and mp = 4 and dp = "[]" and sp = "paf_init (storage_vec ?pp) []"]
  from T la sa da ca
  have ra: "map_sum id (\<lambda>(status, p, d). (status, pos (input_file p), eof (input_file p), d))
     (FastaParser_parse_objects ?pa [] 65536) = Inr (True, 5, False, [FastaObject ''a'' ''C''])"
    by (simp add: b)
  from T lq have rq: "FastqParser_parse_objects ?pq [] 4 = Inl ChunkTooSmall"
    by (simp add: b init_fields)
  from T lm have rm: "MhapParser_parse_objects ?pm [] 4 = Inl ChunkTooSmall"
    by (simp add: b init_fields)
  from T lp have rp: "PafParser_parse_objects ?pp [] 4 = Inl ChunkTooSmall"
    by (simp add: b init_fields)
  from la(1) ra lq(1) rq rm rp show ?thesis by (intro conjI)
qed

section \<open>Chunked parsing against one unbounded call\<close>

text \<open>
  C1 fails in the code: on \<open>fasta_three_records\<close> one call without a budget returns the three
  records, while the calls with a budget of 65536 bytes, repeated until one returns
  \<^verbatim>\<open>false\<close>, return only the first two, each call appending one record. The second call
  starts at offset 5 and its single \<^verbatim>\<open>fread\<close> returns the remaining 65536 bytes in full, so
  \<^verbatim>\<open>feof\<close> is not yet set and the record in progress is not flushed; the next read returns
  nothing and sets \<^verbatim>\<open>is_end\<close>, but the flush sits inside the loop over the bytes read.
\<close>

theorem C1_chunked_parse_drops_last_record:
  "outcome (FastaParser_parse_objects (FastaParser (fopen fasta_three_records)) [] 0) =
     Inr (False, [FastaObject ''a'' ''C'', FastaObject ''b'' (replicate 65527 (CHR ''A'')),
                  FastaObject ''c'' ''G'']) \<and>
   map_option (map_sum id snd)
     (parse_in_chunks FastaParser_parse_objects (Suc (Suc calls)) 65536
        (FastaParser (fopen fasta_three_records)) []) =
     Some (Inr [FastaObject ''a'' ''C'', FastaObject ''b'' (replicate 65527 (CHR ''A''))])"
proof -
  have l: "length (replicate (kSSS + kMSS) (CHR 0x00)) = 8389632"
    by (simp add: constants_defs)
  have "outcome (FastaParser_parse_objects (FastaParser (fopen fasta_three_records)) [] 0) =
     Inr (False, [FastaObject ''a'' ''C'', FastaObject ''b'' (replicate 65527 (CHR ''A'')),
                  FastaObject ''c'' ''G''])"
    unfolding FastaParser_fopen fasta_example_unbounded [OF l] by (simp add: outcome_def)
  moreover note fasta_example_chunks [OF l, of calls, folded FastaParser_fopen]
  ultimately show ?thesis by (rule conjI)
qed

text \<open>
  C9 fails in the code: \<open>reset\<close> puts the stream back at offset 0 with the end-of-file flag
  cleared, but on \<open>fasta_three_records\<close> the first parse, made without a budget, returns
  three records and the reparse in chunks of 65536 bytes after \<open>reset\<close> returns two (the
  sequence of the test \<^verbatim>\<open>ParseAndReset\<close>). The cause is the one of C1.
\<close>

theorem C9_reparse_in_chunks_after_reset_differs:
  "\<exists>p1. FastaParser_parse_objects (FastaParser (fopen fasta_three_records)) [] 0 =
       Inr (False, p1,
            [FastaObject ''a'' ''C'', FastaObject ''b'' (replicate 65527 (CHR ''A'')),
             FastaObject ''c'' ''G'']) \<and>
     pos (input_file (reset p1)) = 0 \<and> \<not> eof (input_file (reset p1)) \<and>
     map_option (map_sum id snd)
       (parse_in_chunks FastaParser_parse_objects (Suc (Suc calls)) 65536 (reset p1) []) =
       Some (Inr [FastaObject ''a'' ''C'', FastaObject ''b'' (replicate 65527 (CHR ''A''))])"
proof -
  let ?st0 = "replicate (kSSS + kMSS) (CHR 0x00)"
  let ?st1 = "(take 1024 (?st0[0 := CHR ''>'', Suc 0 := CHR ''a'', 1024 := CHR ''C'',
                           Suc 0 := CHR ''b'']) @
             replicate 65527 (CHR ''A'') @ drop 66551 ?st0)
            [Suc 0 := CHR ''c'', 1024 := CHR ''G'']"
  let ?p1 = "\<lparr>input_file = \<lparr>content = fasta_three_records, pos = 65541, eof = True\<rparr>,
             storage_vec = ?st1\<rparr>"
  have l0: "length ?st0 = 8389632" by (simp add: constants_defs)
  have l1: "length ?st1 = 8389632" by (simp add: constants_defs)
  have first: "FastaParser_parse_objects (FastaParser (fopen fasta_three_records)) [] 0 =
       Inr (False, ?p1,
            [FastaObject ''a'' ''C'', FastaObject ''b'' (replicate 65527 (CHR ''A'')),
             FastaObject ''c'' ''G''])"
    unfolding FastaParser_fopen fasta_example_unbounded [OF l0] append_Nil ..
  have rewound: "pos (input_file (reset ?p1)) = 0" "\<not> eof (input_file (reset ?p1))"
    unfolding reset_parser by simp_all
  have again: "map_option (map_sum id snd)
       (parse_in_chunks FastaParser_parse_objects (Suc (Suc calls)) 65536 (reset ?p1) []) =
       Some (Inr [FastaObject ''a'' ''C'', FastaObject ''b'' (replicate 65527 (CHR ''A''))])"
    unfolding reset_parser by (rule fasta_example_chunks [OF l1])
  from first rewound again show ?thesis by blast
qed

section \<open>Field separators of the MHAP parser\<close>

lemma field_end_none:
  assumes "\<forall>j. b \<le> j \<and> j < len \<longrightarrow> st ! j \<noteq> sep"
  shows "field_end sep st b len = len"
proof -
  have "find (\<lambda>j. st ! j = sep) [b..<len] = None"
    using assms by (auto simp: find_None_iff)
  then show ?thesis by (simp add: field_end_def)
qed

lemma field_end_first:
  assumes "b < e" "e < len" "st ! e = sep" "\<forall>j. b \<le> j \<and> j < e \<longrightarrow> st ! j \<noteq> sep"
  shows "field_end sep st b len = e"
proof -
  have "find (\<lambda>j. st ! j = sep) [b..<len] = Some e"
    unfolding find_Some_iff
  proof (intro exI [of _ "e - b"] conjI allI impI)
    show "e - b < length [b..<len]" using assms by simp
    show "st ! ([b..<len] ! (e - b)) = sep" using assms by simp
    show "e = [b..<len] ! (e - b)" using assms by simp
    fix j assume "j < e - b"
    then show "st ! ([b..<len] ! j) \<noteq> sep" using assms by simp
  qed
  with assms show ?thesis by (simp add: field_end_def)
qed

lemma field_end_at_separator:
  assumes "b < len" "st ! b = sep"
  shows "field_end sep st b len = len"
proof -
  have "find (\<lambda>j. st ! j = sep) [b..<len] = Some b"
    unfolding find_Some_iff
    using assms by (intro exI [of _ 0]) simp
  then show ?thesis by (simp add: field_end_def)
qed

lemma c_str_token:
  "CHR 0x00 \<notin> set t \<Longrightarrow> c_str (pre @ t @ CHR 0x00 # rest) (length pre) = t"
proof (induction t arbitrary: pre)
  case Nil
  then show ?case by (simp add: c_str.simps)
next
  case (Cons c cs)
  from Cons.prems have "CHR 0x00 \<notin> set cs" "c \<noteq> CHR 0x00" by auto
  from Cons.IH [OF this(1), of "pre @ [c]"] this(2) show ?case
    by (subst c_str.simps) simp
qed

lemma line_trim_spaces:
  assumes "\<forall>c\<in>set ws. isspace c" "l = [] \<or> \<not> isspace (last l)"
  shows "line_trim (l @ ws @ rest) (length l + length ws) =
     Inr (l @ replicate (length ws) (CHR 0x00) @ rest, length l)"
  using assms(1)
proof (induction ws arbitrary: rest rule: rev_induct)
  case Nil
  show ?case
  proof (cases l rule: rev_cases)
    case Nil
    then show ?thesis by simp
  next
    case (snoc ys y)
    with assms(2) have "\<not> isspace y" by simp
    with snoc show ?thesis by (simp add: nth_append)
  qed
next
  case (snoc w ws)
  let ?st = "l @ (ws @ [w]) @ rest"
  let ?n = "length l + length ws"
  have a: "?st ! ?n = w"
    by (simp add: nth_append)
  have u: "store_write ?n (CHR 0x00) ?st = Inr (l @ ws @ CHR 0x00 # rest)"
    by (simp add: store_write_def list_update_append)
  from snoc.prems have w: "isspace w" and ws: "\<forall>c\<in>set ws. isspace c" by auto
  have "line_trim ?st (Suc ?n) = line_trim (l @ ws @ CHR 0x00 # rest) ?n"
    using w by (simp only: line_trim.simps a u if_True sum.case)
  also have "\<dots> = Inr (l @ replicate (length ws) (CHR 0x00) @ CHR 0x00 # rest, length l)"
    by (rule snoc.IH [OF ws])
  also have "replicate (length ws) (CHR 0x00) @ CHR 0x00 # rest =
      replicate (length (ws @ [w])) (CHR 0x00) @ rest"
    by (simp add: replicate_app_Cons_same)
  finally show ?case by simp
qed

lemma mhap_assign_update:
  "mhap_assign k t (s\<lparr>storage := st\<rparr>) = (mhap_assign k t s)\<lparr>storage := st\<rparr>"
  "mhap_assign k t (s\<lparr>values_length := v\<rparr>) = (mhap_assign k t s)\<lparr>values_length := v\<rparr>"
  "mhap_assign k t (s\<lparr>line_length := n\<rparr>) = (mhap_assign k t s)\<lparr>line_length := n\<rparr>"
  by (simp_all add: mhap_assign_def)

lemma mhap_assign_all_update:
  "mhap_assign_all k ts (s\<lparr>storage := st\<rparr>) = (mhap_assign_all k ts s)\<lparr>storage := st\<rparr>"
  "mhap_assign_all k ts (s\<lparr>values_length := v\<rparr>) = (mhap_assign_all k ts s)\<lparr>values_length := v\<rparr>"
  "mhap_assign_all k ts (s\<lparr>line_length := n\<rparr>) = (mhap_assign_all k ts s)\<lparr>line_length := n\<rparr>"
  by (induction k ts s rule: mhap_assign_all.induct) (simp_all add: mhap_assign_update)

lemma mhap_values_update [simp]:
  "mhap_values (s\<lparr>storage := st\<rparr>) = mhap_values s"
  "mhap_values (s\<lparr>values_length := v\<rparr>) = mhap_values s"
  "mhap_values (s\<lparr>line_length := n\<rparr>) = mhap_values s"
  "mhap_values (s\<lparr>current_bytes := b\<rparr>) = mhap_values s"
  by (simp_all add: mhap_values_def)

lemma mhap_fields_tokens:
  assumes "\<forall>t\<in>set ts. t \<noteq> [] \<and> CHR 0x20 \<notin> set t \<and> CHR 0x00 \<notin> set t" "ts \<noteq> []"
    "storage s = pre @ join_fields ts @ CHR 0x00 # rest"
    "line_length s = length pre + length (join_fields ts)"
    "values_length s < 12"
  shows "\<exists>s'. mhap_fields (length pre) s = Inr s' \<and>
           values_length s' = min 12 (values_length s + length ts) \<and>
           mhap_values s' = mhap_values (mhap_assign_all (values_length s) ts s)"
  using assms
proof (induction ts arbitrary: pre s rule: join_fields.induct)
  case 1
  then show ?case by simp
next
  case (2 t)
  let ?b = "length pre"
  let ?len = "length pre + length t"
  from "2.prems" have t: "CHR 0x20 \<notin> set t" "CHR 0x00 \<notin> set t"
    and st: "storage s = pre @ t @ CHR 0x00 # rest" and ll: "line_length s = ?len"
    and k: "values_length s < 12"
    by simp_all
  have "\<forall>j. ?b \<le> j \<and> j < ?len \<longrightarrow> storage s ! j \<noteq> CHR 0x20"
  proof (intro allI impI)
    fix j assume j: "?b \<le> j \<and> j < ?len"
    then have jt: "j - ?b < length t" by arith
    with j have "storage s ! j = t ! (j - ?b)" by (simp add: st nth_append)
    moreover from jt have "t ! (j - ?b) \<in> set t" by (rule nth_mem)
    ultimately show "storage s ! j \<noteq> CHR 0x20" using t(1) by metis
  qed
  then have e: "field_end (CHR 0x20) (storage s) ?b ?len = ?len"
    by (rule field_end_none)
  have w: "store_write ?len (CHR 0x00) (storage s) = Inr (storage s)"
    by (simp add: store_write_def st list_update_append)
  have c: "c_str (storage s) ?b = t"
    unfolding st by (rule c_str_token [OF t(2)])
  show ?case
    using k by (subst mhap_fields.simps, unfold ll e) (simp add: w c Let_def)
next
  case (3 t u us)
  let ?J = "join_fields (u # us)"
  let ?b = "length pre"
  let ?e = "length pre + length t"
  let ?len = "length pre + length t + 1 + length ?J"
  let ?st' = "pre @ t @ CHR 0x00 # ?J @ CHR 0x00 # rest"
  from "3.prems" have t: "t \<noteq> []" "CHR 0x20 \<notin> set t" "CHR 0x00 \<notin> set t"
    and rest: "\<forall>t\<in>set (u # us). t \<noteq> [] \<and> CHR 0x20 \<notin> set t \<and> CHR 0x00 \<notin> set t"
    and st: "storage s = pre @ t @ CHR 0x20 # ?J @ CHR 0x00 # rest"
    and ll: "line_length s = ?len"
    and k: "values_length s < 12"
    by simp_all
  have "\<forall>j. ?b \<le> j \<and> j < ?e \<longrightarrow> storage s ! j \<noteq> CHR 0x20"
  proof (intro allI impI)
    fix j assume j: "?b \<le> j \<and> j < ?e"
    then have jt: "j - ?b < length t" by arith
    with j have "storage s ! j = t ! (j - ?b)" by (simp add: st nth_append)
    moreover from jt have "t ! (j - ?b) \<in> set t" by (rule nth_mem)
    ultimately show "storage s ! j \<noteq> CHR 0x20" using t(2) by metis
  qed
  moreover have "?b < ?e" using t(1) by simp
  moreover have "?e < ?len" by simp
  moreover have "storage s ! ?e = CHR 0x20" by (simp add: st nth_append)
  ultimately have e: "field_end (CHR 0x20) (storage s) ?b ?len = ?e"
    by (intro field_end_first) simp_all
  have w: "store_write ?e (CHR 0x00) (storage s) = Inr ?st'"
    by (simp add: store_write_def st list_update_append)
  have c: "c_str ?st' ?b = t"
    by (rule c_str_token [OF t(3)])
  let ?s2 = "(mhap_assign (values_length s) t (s\<lparr>storage := ?st'\<rparr>))
      \<lparr>values_length := values_length s + 1\<rparr>"
  have step: "mhap_fields ?b s =
      (if values_length s + 1 = 12 then Inr ?s2 else mhap_fields (?e + 1) ?s2)"
    by (subst mhap_fields.simps, unfold ll e) (simp add: w c Let_def)
  show ?case
  proof (cases "values_length s + 1 = 12")
    case True
    then show ?thesis
      unfolding step by (simp add: mhap_assign_update)
  next
    case False
    have "\<exists>s'. mhap_fields (length (pre @ t @ [CHR 0x00])) ?s2 = Inr s' \<and>
           values_length s' = min 12 (values_length ?s2 + length (u # us)) \<and>
           mhap_values s' = mhap_values (mhap_assign_all (values_length ?s2) (u # us) ?s2)"
    proof (rule "3.IH" [OF rest])
      show "u # us \<noteq> []" by simp
      show "storage ?s2 = (pre @ t @ [CHR 0x00]) @ ?J @ CHR 0x00 # rest" by simp
      show "line_length ?s2 = length (pre @ t @ [CHR 0x00]) + length ?J"
        by (simp add: ll)
      show "values_length ?s2 < 12" using k False by simp
    qed
    then show ?thesis
      unfolding step using False k
      by (simp add: mhap_assign_update mhap_assign_all_update)
  qed
qed

lemma mhap_scan_line:
  assumes "CHR 0x0A \<notin> set xs" "line_length s + length xs \<le> length (storage s)"
  shows "scan mhap_byte e xs s =
     Inr (s\<lparr>current_bytes := current_bytes s + length xs,
            storage := take (line_length s) (storage s) @ xs @
                       drop (line_length s + length xs) (storage s),
            line_length := line_length s + length xs\<rparr>)"
  using assms
proof (induction xs arbitrary: s)
  case Nil
  then show ?case by simp
next
  case (Cons c cs)
  let ?n = "line_length s"
  let ?s1 = "s\<lparr>current_bytes := current_bytes s + 1,
                storage := (storage s)[?n := c],
                line_length := ?n + 1\<rparr>"
  from Cons.prems have cn: "c \<noteq> CHR 0x0A" and lt: "?n < length (storage s)" by auto
  have b: "mhap_byte a c s = Inr ?s1" for a
    using lt by (simp add: mhap_byte_content [OF cn])
  have ih: "scan mhap_byte e cs ?s1 =
     Inr (?s1\<lparr>current_bytes := current_bytes ?s1 + length cs,
            storage := take (line_length ?s1) (storage ?s1) @ cs @
                       drop (line_length ?s1 + length cs) (storage ?s1),
            line_length := line_length ?s1 + length cs\<rparr>)"
    using Cons.prems by (intro Cons.IH) simp_all
  have t: "take (Suc ?n) ((storage s)[?n := c]) = take ?n (storage s) @ [c]"
    using lt by (simp add: take_Suc_conv_app_nth)
  show ?case
    using b ih t by simp
qed

lemma set_join_fields:
  "set (join_fields ts) \<subseteq> \<Union> (set ` set ts) \<union> {CHR 0x20}"
  by (induction ts rule: join_fields.induct) auto

lemma last_join_fields:
  "ts \<noteq> [] \<Longrightarrow> \<forall>t\<in>set ts. t \<noteq> [] \<Longrightarrow>
   join_fields ts \<noteq> [] \<and> last (join_fields ts) = last (last ts)"
  by (induction ts rule: join_fields.induct) auto

lemma mhap_fields_empty_line:
  assumes "line_length s = 0" "storage s \<noteq> []" "values_length s = 0"
  shows "\<exists>s'. mhap_fields 0 s = Inr s' \<and> values_length s' = 1"
proof -
  have e: "field_end (CHR 0x20) (storage s) 0 0 = 0"
    by (simp add: field_end_def)
  from assms(2) have w: "store_write 0 (CHR 0x00) (storage s) = Inr ((storage s)[0 := CHR 0x00])"
    by (simp add: store_write_def)
  show ?thesis
    using assms(3) by (subst mhap_fields.simps, unfold assms(1) e) (simp add: w Let_def)
qed

lemma mhap_assign_all_done:
  "12 \<le> k \<Longrightarrow> mhap_assign_all k ts s = s"
  by (cases ts) simp_all

lemma mhap_values_twelve_Cons:
  "mhap_values
     (mhap_assign_all 0 (t0 # t1 # t2 # t3 # t4 # t5 # t6 # t7 # t8 # t9 # t10 # t11 # rest) s) =
     MhapObject (atoi_u32 t0) (atoi_u32 t1) t2 (atoi_u32 t3) (atoi_u32 t4) (atoi_u32 t5)
       (atoi_u32 t6) (atoi_u32 t7) (atoi_u32 t8) (atoi_u32 t9) (atoi_u32 t10) (atoi_u32 t11)"
  by (simp add: mhap_assign_def mhap_values_def mhap_assign_all_done)

lemma twelve_Cons:
  assumes "12 \<le> length ts"
  shows "ts = ts ! 0 # ts ! 1 # ts ! 2 # ts ! 3 # ts ! 4 # ts ! 5 # ts ! 6 # ts ! 7 # ts ! 8 #
     ts ! 9 # ts ! 10 # ts ! 11 # drop 12 ts"
proof -
  from assms have "ts \<noteq> []" by auto
  then have t1: "take (Suc 0) ts = [ts ! 0]" by (cases ts) simp_all
  have "take 12 ts = [ts ! 0, ts ! 1, ts ! 2, ts ! 3, ts ! 4, ts ! 5, ts ! 6, ts ! 7, ts ! 8,
     ts ! 9, ts ! 10, ts ! 11]"
    using assms by (simp add: eval_nat_numeral take_Suc_conv_app_nth t1)
  then have "take 12 ts @ drop 12 ts = ts ! 0 # ts ! 1 # ts ! 2 # ts ! 3 # ts ! 4 # ts ! 5 #
     ts ! 6 # ts ! 7 # ts ! 8 # ts ! 9 # ts ! 10 # ts ! 11 # drop 12 ts"
    by (simp only: append_Cons append_Nil)
  then show ?thesis by (simp only: append_take_drop_id)
qed

lemma mhap_line_tokens:
  assumes tok: "\<forall>t\<in>set ts. field_token t"
    and ws: "\<forall>c\<in>set ws. isspace c"
    and st: "storage s = join_fields ts @ ws @ rest" and rest: "rest \<noteq> []"
    and ll: "line_length s = length (join_fields ts) + length ws"
    and vl: "values_length s = 0"
  shows "\<exists>s'. mhap_line s = Inr s' \<and> dst s' = dst s \<and>
           values_length s' = (if ts = [] then 1 else min 12 (length ts)) \<and>
           (12 \<le> length ts \<longrightarrow> mhap_values s' = mhap_values (mhap_assign_all 0 ts s))"
proof -
  let ?L = "join_fields ts"
  let ?n = "length ?L + length ws"
  from rest obtain r rs where r: "rest = r # rs" by (cases rest) auto
  have w: "store_write ?n (CHR 0x00) (storage s) = Inr (?L @ ws @ CHR 0x00 # rs)"
    by (simp add: store_write_def st r list_update_append)
  have l: "?L = [] \<or> \<not> isspace (last ?L)"
  proof (cases "ts = []")
    case True
    then show ?thesis by simp
  next
    case False
    with tok have "\<forall>t\<in>set ts. t \<noteq> []" "\<not> isspace (last (last ts))"
      by (auto simp: field_token_def)
    with last_join_fields [OF False this(1)] show ?thesis by simp
  qed
  have tr: "line_trim (?L @ ws @ CHR 0x00 # rs) ?n =
      Inr (?L @ replicate (length ws) (CHR 0x00) @ CHR 0x00 # rs, length ?L)"
    by (rule line_trim_spaces [OF ws l])
  let ?s3 = "s\<lparr>storage := ?L @ replicate (length ws) (CHR 0x00) @ CHR 0x00 # rs,
               line_length := length ?L\<rparr>"
  have ml: "mhap_line s = mhap_fields 0 ?s3"
    by (simp only: mhap_line_def ll w tr sum.case prod.case)
  have st3: "storage ?s3 = [] @ ?L @ CHR 0x00 # (replicate (length ws) (CHR 0x00) @ rs)"
    by (simp add: replicate_app_Cons_same)
  show ?thesis
  proof (cases "ts = []")
    case True
    have "\<exists>s'. mhap_fields 0 ?s3 = Inr s' \<and> values_length s' = 1"
      using True vl by (intro mhap_fields_empty_line) simp_all
    then obtain s' where f: "mhap_fields 0 ?s3 = Inr s'" and v: "values_length s' = 1"
      by blast
    from mhap_fields_frame [OF f] have "dst s' = dst s" by simp
    with f v True show ?thesis unfolding ml by simp
  next
    case False
    from tok have tk: "\<forall>t\<in>set ts. t \<noteq> [] \<and> CHR 0x20 \<notin> set t \<and> CHR 0x00 \<notin> set t"
      by (simp add: field_token_def)
    have "\<exists>s'. mhap_fields (length ([] :: char list)) ?s3 = Inr s' \<and>
           values_length s' = min 12 (values_length ?s3 + length ts) \<and>
           mhap_values s' = mhap_values (mhap_assign_all (values_length ?s3) ts ?s3)"
      using vl by (intro mhap_fields_tokens [OF tk False st3]) simp_all
    then obtain s' where f: "mhap_fields 0 ?s3 = Inr s'"
      and v: "values_length s' = min 12 (length ts)"
      and m: "mhap_values s' = mhap_values (mhap_assign_all 0 ts ?s3)"
      using vl by auto
    from mhap_fields_frame [OF f] have d: "dst s' = dst s" by simp
    have "mhap_values (mhap_assign_all 0 ts ?s3) = mhap_values (mhap_assign_all 0 ts s)"
      by (simp add: mhap_assign_all_update)
    with f v m d False show ?thesis unfolding ml by simp
  qed
qed

lemma scan_snoc:
  "scan step False xs s = Inr s1 \<Longrightarrow> scan step e (xs @ [c]) s = step e c s1"
  by (induction xs arbitrary: s) (auto split: sum.splits)

lemma mhap_scan_tokens:
  assumes tok: "\<forall>t\<in>set ts. field_token t"
    and ws: "\<forall>c\<in>set ws. isspace c \<and> c \<noteq> CHR 0x0A"
    and ll: "line_length s = 0" and vl: "values_length s = 0"
    and fit: "length (join_fields ts @ ws) < length (storage s)"
  shows "(12 \<le> length ts \<longrightarrow>
           (\<exists>s'. scan mhap_byte e (join_fields ts @ ws @ [CHR 0x0A]) s = Inr s' \<and>
              dst s' = dst s @
                [MhapObject (atoi_u32 (ts ! 0)) (atoi_u32 (ts ! 1)) (ts ! 2) (atoi_u32 (ts ! 3))
                   (atoi_u32 (ts ! 4)) (atoi_u32 (ts ! 5)) (atoi_u32 (ts ! 6))
                   (atoi_u32 (ts ! 7)) (atoi_u32 (ts ! 8)) (atoi_u32 (ts ! 9))
                   (atoi_u32 (ts ! 10)) (atoi_u32 (ts ! 11))])) \<and>
         (length ts < 12 \<longrightarrow>
           scan mhap_byte e (join_fields ts @ ws @ [CHR 0x0A]) s = Inl InvalidFormat)"
proof -
  let ?L = "join_fields ts"
  let ?xs = "?L @ ws"
  let ?n = "length ?L + length ws"
  let ?s1 = "s\<lparr>current_bytes := current_bytes s + length ?xs,
               storage := take (line_length s) (storage s) @ ?xs @
                          drop (line_length s + length ?xs) (storage s),
               line_length := line_length s + length ?xs\<rparr>"
  let ?s1' = "?s1\<lparr>current_bytes := current_bytes ?s1 + 1\<rparr>"
  from tok have "CHR 0x0A \<notin> \<Union> (set ` set ts) \<union> {CHR 0x20}"
    by (auto simp: field_token_def)
  with set_join_fields [of ts] have "CHR 0x0A \<notin> set ?L" by blast
  with ws have nl: "CHR 0x0A \<notin> set ?xs" by auto
  from fit ll have le: "line_length s + length ?xs \<le> length (storage s)" by simp
  have sc: "scan mhap_byte False ?xs s = Inr ?s1"
    by (rule mhap_scan_line [OF nl le])
  have "scan mhap_byte e (?xs @ [CHR 0x0A]) s = mhap_byte e (CHR 0x0A) ?s1"
    by (rule scan_snoc [OF sc])
  then have whole: "scan mhap_byte e (?L @ ws @ [CHR 0x0A]) s =
      (case mhap_line ?s1' of Inl x \<Rightarrow> Inl x | Inr s2 \<Rightarrow> mhap_complete s2)"
    by (simp only: mhap_byte_newline append_assoc)
  from ws have ws': "\<forall>c\<in>set ws. isspace c" by simp
  have st: "storage ?s1' = ?L @ ws @ drop ?n (storage s)"
    by (simp add: ll)
  from fit have rest: "drop ?n (storage s) \<noteq> []" by simp
  have ll': "line_length ?s1' = ?n" by (simp add: ll)
  have vl': "values_length ?s1' = 0" by (simp add: vl)
  from mhap_line_tokens [OF tok ws' st rest ll' vl']
  obtain s2 where l: "mhap_line ?s1' = Inr s2" and d: "dst s2 = dst ?s1'"
    and v: "values_length s2 = (if ts = [] then 1 else min 12 (length ts))"
    and m: "12 \<le> length ts \<longrightarrow> mhap_values s2 = mhap_values (mhap_assign_all 0 ts ?s1')"
    by blast
  show ?thesis
  proof (intro conjI impI)
    assume len: "12 \<le> length ts"
    with v have v12: "values_length s2 = 12" by auto
    from len m have "mhap_values s2 = mhap_values (mhap_assign_all 0 ts ?s1')" by simp
    also have "\<dots> =
       MhapObject (atoi_u32 (ts ! 0)) (atoi_u32 (ts ! 1)) (ts ! 2) (atoi_u32 (ts ! 3))
         (atoi_u32 (ts ! 4)) (atoi_u32 (ts ! 5)) (atoi_u32 (ts ! 6))
         (atoi_u32 (ts ! 7)) (atoi_u32 (ts ! 8)) (atoi_u32 (ts ! 9))
         (atoi_u32 (ts ! 10)) (atoi_u32 (ts ! 11))"
      by (subst twelve_Cons [OF len]) (simp only: mhap_values_twelve_Cons)
    finally have mv: "mhap_values s2 =
       MhapObject (atoi_u32 (ts ! 0)) (atoi_u32 (ts ! 1)) (ts ! 2) (atoi_u32 (ts ! 3))
         (atoi_u32 (ts ! 4)) (atoi_u32 (ts ! 5)) (atoi_u32 (ts ! 6))
         (atoi_u32 (ts ! 7)) (atoi_u32 (ts ! 8)) (atoi_u32 (ts ! 9))
         (atoi_u32 (ts ! 10)) (atoi_u32 (ts ! 11))" .
    from d have d': "dst s2 = dst s" by simp
    show "\<exists>s'. scan mhap_byte e (?L @ ws @ [CHR 0x0A]) s = Inr s' \<and>
              dst s' = dst s @
                [MhapObject (atoi_u32 (ts ! 0)) (atoi_u32 (ts ! 1)) (ts ! 2) (atoi_u32 (ts ! 3))
                   (atoi_u32 (ts ! 4)) (atoi_u32 (ts ! 5)) (atoi_u32 (ts ! 6))
                   (atoi_u32 (ts ! 7)) (atoi_u32 (ts ! 8)) (atoi_u32 (ts ! 9))
                   (atoi_u32 (ts ! 10)) (atoi_u32 (ts ! 11))]"
      unfolding whole l mv [symmetric]
      by (simp add: mhap_complete_def v12 d' mhap_values_def)
  next
    assume "length ts < 12"
    with v have "values_length s2 \<noteq> 12" by auto
    then show "scan mhap_byte e (?L @ ws @ [CHR 0x0A]) s = Inl InvalidFormat"
      unfolding whole l by (simp add: mhap_complete_def)
  qed
qed

text \<open>
  C6, as the claim states it, fails.  The line \<open>1 2 3 4 5 6 7 8 9 1 2 3\<close> gives a record;
  the same line with a tab between the fields, and the same line with two spaces after
  the first field, are rejected with \<open>InvalidFormat\<close>.  The inner loop compares with
  \<^verbatim>\<open>' '\<close> only, so a tab never ends a field, and a field that starts at a space has
  \<^verbatim>\<open>end == begin\<close> and takes the rest of the line.
\<close>

theorem C6_whitespace_runs_counterexample:
  "outcome (MhapParser_parse_objects
      (MhapParser (fopen ''1 2 3 4 5 6 7 8 9 1 2 3\<newline>'')) [] 0) =
     Inr (False, [MhapObject 1 2 ''3'' 4 5 6 7 8 9 1 2 3]) \<and>
   outcome (MhapParser_parse_objects
      (MhapParser (fopen
         [CHR ''1'', CHR 0x09, CHR ''2'', CHR 0x09, CHR ''3'', CHR 0x09, CHR ''4'', CHR 0x09,
          CHR ''5'', CHR 0x09, CHR ''6'', CHR 0x09, CHR ''7'', CHR 0x09, CHR ''8'', CHR 0x09,
          CHR ''9'', CHR 0x09, CHR ''1'', CHR 0x09, CHR ''2'', CHR 0x09, CHR ''3'',
          CHR 0x0A])) [] 0) =
     Inl InvalidFormat \<and>
   outcome (MhapParser_parse_objects
      (MhapParser (fopen ''1  2 3 4 5 6 7 8 9 1 2 3\<newline>'')) [] 0) =
     Inl InvalidFormat"
  by (simp add: line_eval)


text \<open>
  C6, amended: in the MHAP parser the fields of a line are separated by single space bytes
  (0x20) only.  For a line made of the fields \<open>ts\<close> (each a \<open>field_token\<close>) joined by
  single spaces and followed by any white space and the newline, read with an empty line
  buffer that has room for it: with at least twelve fields the newline appends the record
  whose values are \<^verbatim>\<open>atoi\<close> (for \<^verbatim>\<open>error\<close> the text given to \<^verbatim>\<open>atof\<close>) of the first twelve
  fields, and with fewer than twelve the line is rejected with \<open>InvalidFormat\<close>.  A tab
  is part of the field it stands in.
\<close>

theorem C6_fields_split_at_single_spaces:
  assumes tok: "\<forall>t\<in>set ts. field_token t"
    and ws: "\<forall>c\<in>set ws. isspace c \<and> c \<noteq> CHR 0x0A"
    and ll: "line_length s = 0" and vl: "values_length s = 0"
    and fit: "length (join_fields ts @ ws) < length (storage s)"
  shows "(12 \<le> length ts \<longrightarrow>
           (\<exists>s'. scan mhap_byte e (join_fields ts @ ws @ [CHR 0x0A]) s = Inr s' \<and>
              dst s' = dst s @
                [MhapObject (atoi_u32 (ts ! 0)) (atoi_u32 (ts ! 1)) (ts ! 2) (atoi_u32 (ts ! 3))
                   (atoi_u32 (ts ! 4)) (atoi_u32 (ts ! 5)) (atoi_u32 (ts ! 6))
                   (atoi_u32 (ts ! 7)) (atoi_u32 (ts ! 8)) (atoi_u32 (ts ! 9))
                   (atoi_u32 (ts ! 10)) (atoi_u32 (ts ! 11))])) \<and>
         (length ts < 12 \<longrightarrow>
           scan mhap_byte e (join_fields ts @ ws @ [CHR 0x0A]) s = Inl InvalidFormat)"
  by (rule mhap_scan_tokens [OF tok ws ll vl fit])

theorem C6_fields_split_at_single_spaces_witness:
  "map_sum id dst
     (scan mhap_byte False
        (join_fields [''7'', ''12'', ''0.25'', ''40'', ''0'', ''3'', ''90'', ''100'', ''1'', ''5'',
           ''80'', ''9223372036854775808''] @ [CHR 0x09, CHR 0x20] @ [CHR 0x0A])
        (mhap_init (replicate kSSS (CHR 0x00)) [])) =
     Inr [MhapObject 7 12 ''0.25'' 40 0 3 90 100 1 5 80 4294967295] \<and>
   scan mhap_byte False
     (join_fields [[CHR ''7'', CHR 0x09, CHR ''1'', CHR ''2''], ''0.25'', ''40'', ''0''] @ [] @
        [CHR 0x0A])
     (mhap_init (replicate kSSS (CHR 0x00)) []) =
     Inl InvalidFormat"
proof -
  let ?ts = "[''7'', ''12'', ''0.25'', ''40'', ''0'', ''3'', ''90'', ''100'', ''1'', ''5'',
           ''80'', ''9223372036854775808'']"
  let ?us = "[[CHR ''7'', CHR 0x09, CHR ''1'', CHR ''2''], ''0.25'', ''40'', ''0'']"
  let ?s0 = "mhap_init (replicate kSSS (CHR 0x00)) [] :: mhap_object mhap_locals"
  have t: "\<forall>t\<in>set ?ts. field_token t" "\<forall>t\<in>set ?us. field_token t"
    by (simp_all add: field_token_def isspace_def)
  have w: "\<forall>c\<in>set [CHR 0x09, CHR 0x20]. isspace c \<and> c \<noteq> CHR 0x0A"
    "\<forall>c\<in>set ([] :: char list). isspace c \<and> c \<noteq> CHR 0x0A"
    by (simp_all add: isspace_def)
  have l: "line_length ?s0 = 0" and v: "values_length ?s0 = 0" and d: "dst ?s0 = []"
    by (simp_all add: mhap_init_def)
  have f: "length (join_fields ?ts @ [CHR 0x09, CHR 0x20]) < length (storage ?s0)"
    "length (join_fields ?us @ []) < length (storage ?s0)"
    by (simp_all add: mhap_init_def kSSS_def)
  have n: "12 \<le> length ?ts" "length ?us < 12" by simp_all
  note T1 = C6_fields_split_at_single_spaces [OF t(1) w(1) l v f(1), of False]
  note T2 = C6_fields_split_at_single_spaces [OF t(2) w(2) l v f(2), of False]
  from T1 [THEN conjunct1, rule_format, OF n(1)]
  obtain s' where a: "scan mhap_byte False
        (join_fields ?ts @ [CHR 0x09, CHR 0x20] @ [CHR 0x0A]) ?s0 = Inr s'"
    and b: "dst s' = dst ?s0 @
       [MhapObject (atoi_u32 (?ts ! 0)) (atoi_u32 (?ts ! 1)) (?ts ! 2) (atoi_u32 (?ts ! 3))
          (atoi_u32 (?ts ! 4)) (atoi_u32 (?ts ! 5)) (atoi_u32 (?ts ! 6))
          (atoi_u32 (?ts ! 7)) (atoi_u32 (?ts ! 8)) (atoi_u32 (?ts ! 9))
          (atoi_u32 (?ts ! 10)) (atoi_u32 (?ts ! 11))]"
    by blast
  have "dst s' = [MhapObject 7 12 ''0.25'' 40 0 3 90 100 1 5 80 4294967295]"
    unfolding b d by (simp add: atoi_u32_strtol strtol_def isdigit_def isspace_def)
  then have r1: "map_sum id dst (scan mhap_byte False
        (join_fields ?ts @ [CHR 0x09, CHR 0x20] @ [CHR 0x0A]) ?s0) =
      Inr [MhapObject 7 12 ''0.25'' 40 0 3 90 100 1 5 80 4294967295]"
    unfolding a by simp
  from r1 T2 [THEN conjunct2, rule_format, OF n(2)] show ?thesis
    by (rule conjI)
qed

section \<open>Growth of the storage in the middle of a record\<close>

lemma length_resize [simp]: "length (resize n st) = n"
  by (simp add: resize_def)

lemma resize_nth: "i < length st \<Longrightarrow> length st \<le> n \<Longrightarrow> resize n st ! i = st ! i"
  by (simp add: resize_def nth_append)

lemma region_cong:
  "(\<And>i. off \<le> i \<Longrightarrow> i < off + n \<Longrightarrow> st ! i = st' ! i) \<Longrightarrow> region st off n = region st' off n"
  by (simp add: region_def)

lemma region_snoc: "region st off (Suc n) = region st off n @ [st ! (off + n)]"
  by (simp add: region_def)



lemma fastq_data_byte:
  assumes "line_number s = 1" "c \<noteq> CHR 0x0A"
    and "kSSS + data_length s < length (storage s)"
  shows "fastq_byte a c s =
     Inr (s\<lparr>storage := (if data_length s + 1 = kMSS
                          then resize (kSSS + 2 * kLSS) ((storage s)[kSSS + data_length s := c])
                          else (storage s)[kSSS + data_length s := c]),
            data_length := data_length s + 1,
            quality := (if data_length s + 1 = kMSS then kSSS + kLSS else quality s),
            current_bytes := current_bytes s + 1\<rparr>)"
  using assms by (simp add: fastq_byte_def fastq_char_def store_write_def Let_def)

lemma fastq_data_run:
  assumes "line_number s = 1" "\<forall>c\<in>set xs. c \<noteq> CHR 0x0A"
    and "name_length s \<le> kSSS"
    and "kSSS + 2 * kMSS \<le> length (storage s)" "length (storage s) \<le> kSSS + 2 * kLSS"
    and "kMSS \<le> data_length s \<longrightarrow>
           length (storage s) = kSSS + 2 * kLSS \<and> quality s = kSSS + kLSS"
    and "data_length s + length xs \<le> kLSS"
  shows "\<exists>s'. scan fastq_byte e xs s = Inr s' \<and>
           line_number s' = line_number s \<and> name_length s' = name_length s \<and>
           data_length s' = data_length s + length xs \<and> dst s' = dst s \<and>
           quality_length s' = quality_length s \<and>
           kSSS + 2 * kMSS \<le> length (storage s') \<and> length (storage s') \<le> kSSS + 2 * kLSS \<and>
           (kMSS \<le> data_length s' \<longrightarrow>
              length (storage s') = kSSS + 2 * kLSS \<and> quality s' = kSSS + kLSS) \<and>
           (data_length s' < kMSS \<longrightarrow> quality s' = quality s) \<and>
           region (storage s') 0 (name_length s) = region (storage s) 0 (name_length s) \<and>
           region (storage s') kSSS (data_length s + length xs) =
             region (storage s) kSSS (data_length s) @ xs"
  using assms
proof (induction xs arbitrary: s)
  case Nil
  then show ?case by simp
next
  case (Cons c cs)
  let ?st = "storage s"
  let ?k = "kSSS + data_length s"
  let ?w = "?st[?k := c]"
  let ?st1 = "if data_length s + 1 = kMSS then resize (kSSS + 2 * kLSS) ?w else ?w"
  let ?q1 = "if data_length s + 1 = kMSS then kSSS + kLSS else quality s"
  let ?s1 = "s\<lparr>storage := ?st1, data_length := data_length s + 1, quality := ?q1,
               current_bytes := current_bytes s + 1\<rparr>"
  have km: "kMSS < kLSS" by (simp add: constants_defs)
  from Cons.prems have c: "c \<noteq> CHR 0x0A" and dl: "data_length s < kLSS"
    by auto
  from Cons.prems dl km have k: "?k < length ?st"
    by (cases "kMSS \<le> data_length s") auto
  have b: "fastq_byte a c s = Inr ?s1" for a
    by (rule fastq_data_byte [OF Cons.prems(1) c k])
  have nth1: "?st1 ! i = ?w ! i" if "i < length ?st" for i
    using that Cons.prems(5) by (simp add: resize_nth)
  have "\<exists>s'. scan fastq_byte e cs ?s1 = Inr s' \<and>
           line_number s' = line_number ?s1 \<and> name_length s' = name_length ?s1 \<and>
           data_length s' = data_length ?s1 + length cs \<and> dst s' = dst ?s1 \<and>
           quality_length s' = quality_length ?s1 \<and>
           kSSS + 2 * kMSS \<le> length (storage s') \<and> length (storage s') \<le> kSSS + 2 * kLSS \<and>
           (kMSS \<le> data_length s' \<longrightarrow>
              length (storage s') = kSSS + 2 * kLSS \<and> quality s' = kSSS + kLSS) \<and>
           (data_length s' < kMSS \<longrightarrow> quality s' = quality ?s1) \<and>
           region (storage s') 0 (name_length ?s1) = region (storage ?s1) 0 (name_length ?s1) \<and>
           region (storage s') kSSS (data_length ?s1 + length cs) =
             region (storage ?s1) kSSS (data_length ?s1) @ cs"
  proof (rule Cons.IH)
    show "line_number ?s1 = 1" using Cons.prems(1) by simp
    show "\<forall>c\<in>set cs. c \<noteq> CHR 0x0A" using Cons.prems(2) by simp
    show "name_length ?s1 \<le> kSSS" using Cons.prems(3) by simp
    show "kSSS + 2 * kMSS \<le> length (storage ?s1)"
      using Cons.prems(4) km by simp
    show "length (storage ?s1) \<le> kSSS + 2 * kLSS"
      using Cons.prems(5) by simp
    show "kMSS \<le> data_length ?s1 \<longrightarrow>
        length (storage ?s1) = kSSS + 2 * kLSS \<and> quality ?s1 = kSSS + kLSS"
      using Cons.prems(6) by auto
    show "data_length ?s1 + length cs \<le> kLSS" using Cons.prems(7) by simp
  qed
  then obtain s' where sc: "scan fastq_byte e cs ?s1 = Inr s'"
    and ih: "line_number s' = line_number ?s1 \<and> name_length s' = name_length ?s1 \<and>
           data_length s' = data_length ?s1 + length cs \<and> dst s' = dst ?s1 \<and>
           quality_length s' = quality_length ?s1 \<and>
           kSSS + 2 * kMSS \<le> length (storage s') \<and> length (storage s') \<le> kSSS + 2 * kLSS \<and>
           (kMSS \<le> data_length s' \<longrightarrow>
              length (storage s') = kSSS + 2 * kLSS \<and> quality s' = kSSS + kLSS) \<and>
           (data_length s' < kMSS \<longrightarrow> quality s' = quality ?s1) \<and>
           region (storage s') 0 (name_length ?s1) = region (storage ?s1) 0 (name_length ?s1) \<and>
           region (storage s') kSSS (data_length ?s1 + length cs) =
             region (storage ?s1) kSSS (data_length ?s1) @ cs"
    by blast
  from ih have f: "line_number s' = line_number s" "name_length s' = name_length s"
      "data_length s' = data_length s + length (c # cs)" "dst s' = dst s"
      "quality_length s' = quality_length s"
      "kSSS + 2 * kMSS \<le> length (storage s')" "length (storage s') \<le> kSSS + 2 * kLSS"
      "kMSS \<le> data_length s' \<longrightarrow>
         length (storage s') = kSSS + 2 * kLSS \<and> quality s' = kSSS + kLSS"
    by simp_all
  from ih have q: "data_length s' < kMSS \<longrightarrow> quality s' = ?q1"
    by simp
  from ih have rn: "region (storage s') 0 (name_length s) = region ?st1 0 (name_length s)"
    and rd: "region (storage s') kSSS (Suc (data_length s) + length cs) =
             region ?st1 kSSS (Suc (data_length s)) @ cs"
    by simp_all
  from q f(3) have q': "data_length s' < kMSS \<longrightarrow> quality s' = quality s"
    by auto
  have n1: "region ?st1 0 (name_length s) = region ?st 0 (name_length s)"
  proof (rule region_cong)
    fix i assume "0 \<le> i" "i < 0 + name_length s"
    with Cons.prems(3) k have "i < length ?st" "i \<noteq> ?k" by auto
    with nth1 [of i] show "?st1 ! i = ?st ! i" by simp
  qed
  have d0: "region ?st1 kSSS (data_length s) = region ?st kSSS (data_length s)"
  proof (rule region_cong)
    fix i assume "kSSS \<le> i" "i < kSSS + data_length s"
    with k have "i < length ?st" "i \<noteq> ?k" by auto
    with nth1 [of i] show "?st1 ! i = ?st ! i" by simp
  qed
  have "?st1 ! ?k = c" using nth1 [OF k] k by simp
  with d0 have d1: "region ?st1 kSSS (Suc (data_length s)) = region ?st kSSS (data_length s) @ [c]"
    by (simp add: region_snoc)
  have "scan fastq_byte e (c # cs) s = Inr s'"
    using b sc by simp
  with f q' rn rd n1 d1 show ?case by simp
qed




section \<open>Validation of a FASTQ group\<close>

lemma fastq_name_byte:
  assumes "line_number s = 0" "c \<noteq> CHR 0x0A" "name_length s < kSSS"
    and "name_length s = 0 \<longrightarrow> \<not> isspace c" "kSSS \<le> length (storage s)"
  shows "fastq_byte a c s =
     Inr (s\<lparr>storage := (storage s)[name_length s := c],
            name_length := name_length s + 1,
            current_bytes := current_bytes s + 1\<rparr>)"
proof -
  from assms(3,4) have "\<not> (name_length s = 0 \<and> isspace c)" by blast
  with assms(1,2,3,5) show ?thesis
    by (simp add: fastq_byte_def fastq_char_def store_write_def Let_def)
qed

lemma fastq_name_run:
  assumes "line_number s = 0" "CHR 0x0A \<notin> set xs"
    and "name_length s = 0 \<longrightarrow> xs = [] \<or> \<not> isspace (hd xs)"
    and "name_length s + length xs \<le> kSSS" "kSSS \<le> length (storage s)"
  shows "scan fastq_byte e xs s =
     Inr (s\<lparr>storage := take (name_length s) (storage s) @ xs @
                         drop (name_length s + length xs) (storage s),
            name_length := name_length s + length xs,
            current_bytes := current_bytes s + length xs\<rparr>)"
  using assms
proof (induction xs arbitrary: s)
  case Nil
  then show ?case by simp
next
  case (Cons c cs)
  let ?n = "name_length s"
  let ?s1 = "s\<lparr>storage := (storage s)[?n := c], name_length := ?n + 1,
               current_bytes := current_bytes s + 1\<rparr>"
  from Cons.prems have b: "fastq_byte a c s = Inr ?s1" for a
    by (intro fastq_name_byte) auto
  have ih: "scan fastq_byte e cs ?s1 =
     Inr (?s1\<lparr>storage := take (name_length ?s1) (storage ?s1) @ cs @
                         drop (name_length ?s1 + length cs) (storage ?s1),
            name_length := name_length ?s1 + length cs,
            current_bytes := current_bytes ?s1 + length cs\<rparr>)"
    using Cons.prems by (intro Cons.IH) simp_all
  from Cons.prems have lt: "?n < length (storage s)" by simp
  have t: "take (Suc ?n) ((storage s)[?n := c]) = take ?n (storage s) @ [c]"
    using lt by (simp add: take_Suc_conv_app_nth)
  show ?case
    using b ih t by simp
qed

lemma fastq_plus_run:
  assumes "line_number s = 2" "CHR 0x0A \<notin> set xs"
  shows "scan fastq_byte e xs s = Inr (s\<lparr>current_bytes := current_bytes s + length xs\<rparr>)"
  using assms
proof (induction xs arbitrary: s)
  case Nil
  then show ?case by simp
next
  case (Cons c cs)
  let ?s1 = "s\<lparr>current_bytes := current_bytes s + 1\<rparr>"
  from Cons.prems have "c \<noteq> CHR 0x0A" by auto
  with Cons.prems(1) have b: "fastq_byte a c s = Inr ?s1" for a
    by (simp add: fastq_byte_def fastq_char_def Let_def)
  have ih: "scan fastq_byte e cs ?s1 =
      Inr (?s1\<lparr>current_bytes := current_bytes ?s1 + length cs\<rparr>)"
    using Cons.prems by (intro Cons.IH) simp_all
  show ?case using b ih by simp
qed

lemma fastq_quality_byte:
  assumes "line_number s = 3" "c \<noteq> CHR 0x0A"
    and "quality s + quality_length s < length (storage s)"
  shows "fastq_byte a c s =
     Inr (s\<lparr>storage := (storage s)[quality s + quality_length s := c],
            quality_length := quality_length s + 1,
            current_bytes := current_bytes s + 1\<rparr>)"
  using assms by (simp add: fastq_byte_def fastq_char_def store_write_def Let_def)

lemma fastq_quality_run:
  assumes "line_number s = 3" "CHR 0x0A \<notin> set xs"
    and "quality s + quality_length s + length xs \<le> length (storage s)"
  shows "scan fastq_byte e xs s =
     Inr (s\<lparr>storage := take (quality s + quality_length s) (storage s) @ xs @
                         drop (quality s + quality_length s + length xs) (storage s),
            quality_length := quality_length s + length xs,
            current_bytes := current_bytes s + length xs\<rparr>)"
  using assms
proof (induction xs arbitrary: s)
  case Nil
  then show ?case by simp
next
  case (Cons c cs)
  let ?n = "quality s + quality_length s"
  let ?s1 = "s\<lparr>storage := (storage s)[?n := c], quality_length := quality_length s + 1,
               current_bytes := current_bytes s + 1\<rparr>"
  from Cons.prems have b: "fastq_byte a c s = Inr ?s1" for a
    by (intro fastq_quality_byte) auto
  have ih: "scan fastq_byte e cs ?s1 =
     Inr (?s1\<lparr>storage := take (quality ?s1 + quality_length ?s1) (storage ?s1) @ cs @
                         drop (quality ?s1 + quality_length ?s1 + length cs) (storage ?s1),
            quality_length := quality_length ?s1 + length cs,
            current_bytes := current_bytes ?s1 + length cs\<rparr>)"
    using Cons.prems by (intro Cons.IH) simp_all
  from Cons.prems have lt: "?n < length (storage s)" by simp
  have t: "take (Suc ?n) ((storage s)[?n := c]) = take ?n (storage s) @ [c]"
    using lt by (simp add: take_Suc_conv_app_nth)
  show ?case
    using b ih t by simp
qed


lemma fastq_newline_byte:
  assumes "line_number s < 3"
  shows "fastq_byte False (CHR 0x0A) s =
     Inr (s\<lparr>line_number := line_number s + 1, current_bytes := current_bytes s + 1\<rparr>)"
proof -
  from assms have "(line_number s + 1) mod 4 = line_number s + 1"
    by simp
  with assms show ?thesis
    by (simp add: fastq_byte_def fastq_char_def Let_def mod_32_4)
qed

lemma fastq_last_newline_byte:
  assumes "line_number s = 3"
  shows "fastq_byte a (CHR 0x0A) s =
     fastq_complete (s\<lparr>line_number := 0, current_bytes := current_bytes s + 1\<rparr>)"
  using assms by (simp add: fastq_byte_def fastq_char_def Let_def mod_32_4)

lemma region_of_append:
  "length xs = off \<Longrightarrow> region (xs @ ys @ zs) off (length ys) = ys"
  by (rule nth_equalityI) (simp_all add: region_def nth_append)

lemma rtrim_region:
  assumes "region st off n = xs" "xs = [] \<or> \<not> isspace (last xs)"
  shows "rtrim st off n = n"
proof (cases n)
  case 0
  then show ?thesis by simp
next
  case (Suc k)
  from assms(1) have l: "length xs = n" by auto
  have "region st off (Suc k) = region st off k @ [st ! (off + k)]"
    by (rule region_snoc)
  with assms(1) Suc have "xs = region st off k @ [st ! (off + k)]" by simp
  then have "last xs = st ! (off + k)" "xs \<noteq> []" by simp_all
  with assms(2) have "\<not> isspace (st ! (off + k))" by simp
  with Suc show ?thesis by simp
qed

lemma scan_seq:
  "scan step False xs s = Inr s1 \<Longrightarrow> ys \<noteq> [] \<Longrightarrow> scan step e (xs @ ys) s = scan step e ys s1"
  by (simp add: scan_append)

lemma scan_Cons_mid:
  "step False c s = Inr s1 \<Longrightarrow> ys \<noteq> [] \<Longrightarrow> scan step e (c # ys) s = scan step e ys s1"
  by simp

lemma fastq_data_run_small:
  assumes "line_number s = 1" "CHR 0x0A \<notin> set xs"
    and "data_length s + length xs < kMSS" "kSSS + kMSS \<le> length (storage s)"
  shows "scan fastq_byte e xs s =
     Inr (s\<lparr>storage := take (kSSS + data_length s) (storage s) @ xs @
                         drop (kSSS + data_length s + length xs) (storage s),
            data_length := data_length s + length xs,
            current_bytes := current_bytes s + length xs\<rparr>)"
  using assms
proof (induction xs arbitrary: s)
  case Nil
  then show ?case by simp
next
  case (Cons c cs)
  let ?n = "kSSS + data_length s"
  let ?s1 = "s\<lparr>storage := (storage s)[?n := c], data_length := data_length s + 1,
               current_bytes := current_bytes s + 1\<rparr>"
  from Cons.prems have c: "c \<noteq> CHR 0x0A" and lt: "?n < length (storage s)"
    and ne: "data_length s + 1 \<noteq> kMSS"
    by auto
  from fastq_data_byte [OF Cons.prems(1) c lt] ne
  have b: "fastq_byte a c s = Inr ?s1" for a
    by simp
  have ih: "scan fastq_byte e cs ?s1 =
     Inr (?s1\<lparr>storage := take (kSSS + data_length ?s1) (storage ?s1) @ cs @
                         drop (kSSS + data_length ?s1 + length cs) (storage ?s1),
            data_length := data_length ?s1 + length cs,
            current_bytes := current_bytes ?s1 + length cs\<rparr>)"
    using Cons.prems by (intro Cons.IH) simp_all
  have t: "take (Suc ?n) ((storage s)[?n := c]) = take ?n (storage s) @ [c]"
    using lt by (simp add: take_Suc_conv_app_nth)
  show ?case
    using b ih t by simp
qed

lemma fastq_data_line:
  assumes ln: "line_number s = 1" and nl: "CHR 0x0A \<notin> set dat"
    and n: "name_length s \<le> kSSS" and dl: "data_length s = 0" and ql: "quality_length s = 0"
    and lo: "kSSS + 2 * kMSS \<le> length (storage s)" and hi: "length (storage s) \<le> kSSS + 2 * kLSS"
    and qs: "quality s = kSSS + kMSS \<or>
             (quality s = kSSS + kLSS \<and> length (storage s) = kSSS + 2 * kLSS)"
    and ld: "length dat \<le> kLSS"
    and lq: "m \<le> kMSS \<or> (kMSS \<le> length dat \<and> m \<le> kLSS)"
  shows "\<exists>s'. scan fastq_byte False dat s = Inr s' \<and>
           line_number s' = 1 \<and> name_length s' = name_length s \<and>
           data_length s' = length dat \<and> dst s' = dst s \<and> quality_length s' = 0 \<and>
           kSSS + 2 * kMSS \<le> length (storage s') \<and> length (storage s') \<le> kSSS + 2 * kLSS \<and>
           (quality s' = kSSS + kMSS \<or>
            (quality s' = kSSS + kLSS \<and> length (storage s') = kSSS + 2 * kLSS)) \<and>
           kSSS + length dat \<le> quality s' \<and> quality s' + m \<le> length (storage s') \<and>
           region (storage s') 0 (name_length s) = region (storage s) 0 (name_length s) \<and>
           region (storage s') kSSS (length dat) = dat"
proof (cases "length dat < kMSS")
  case True
  have km: "kMSS \<le> kLSS" by (simp add: constants_defs)
  let ?st = "storage s"
  let ?st' = "take kSSS ?st @ dat @ drop (kSSS + length dat) ?st"
  let ?s' = "s\<lparr>storage := ?st', data_length := length dat,
               current_bytes := current_bytes s + length dat\<rparr>"
  from True lo have "scan fastq_byte False dat s =
     Inr (s\<lparr>storage := take (kSSS + data_length s) (storage s) @ dat @
                         drop (kSSS + data_length s + length dat) (storage s),
            data_length := data_length s + length dat,
            current_bytes := current_bytes s + length dat\<rparr>)"
    by (intro fastq_data_run_small [OF ln nl]) (simp_all add: dl)
  then have sc: "scan fastq_byte False dat s = Inr ?s'" by (simp add: dl)
  from True lo have len: "length ?st' = length ?st" by simp
  from lo have tk: "length (take kSSS ?st) = kSSS" by simp
  have rd: "region ?st' kSSS (length dat) = dat"
    by (rule region_of_append [OF tk])
  have rn: "region ?st' 0 (name_length s) = region ?st 0 (name_length s)"
  proof (rule region_cong)
    fix i assume "0 \<le> i" "i < 0 + name_length s"
    with n lo show "?st' ! i = ?st ! i" by (simp add: nth_append)
  qed
  from True qs km have q1: "kSSS + length dat \<le> quality s" by auto
  from True lq have "m \<le> kMSS" by auto
  with qs lo km have q2: "quality s + m \<le> length ?st" by auto
  show ?thesis
    using sc ln ql lo hi qs q1 q2 rd rn unfolding len [symmetric]
    by (intro exI [of _ ?s']) simp
next
  case False
  have km: "kMSS \<le> kLSS" "0 < kMSS" by (simp_all add: constants_defs)
  have "\<exists>s'. scan fastq_byte False dat s = Inr s' \<and>
           line_number s' = line_number s \<and> name_length s' = name_length s \<and>
           data_length s' = data_length s + length dat \<and> dst s' = dst s \<and>
           quality_length s' = quality_length s \<and>
           kSSS + 2 * kMSS \<le> length (storage s') \<and> length (storage s') \<le> kSSS + 2 * kLSS \<and>
           (kMSS \<le> data_length s' \<longrightarrow>
              length (storage s') = kSSS + 2 * kLSS \<and> quality s' = kSSS + kLSS) \<and>
           (data_length s' < kMSS \<longrightarrow> quality s' = quality s) \<and>
           region (storage s') 0 (name_length s) = region (storage s) 0 (name_length s) \<and>
           region (storage s') kSSS (data_length s + length dat) =
             region (storage s) kSSS (data_length s) @ dat"
    using nl n lo hi ld km by (intro fastq_data_run [OF ln]) (auto simp: dl)
  then obtain s' where sc: "scan fastq_byte False dat s = Inr s'"
    and f: "line_number s' = line_number s" "name_length s' = name_length s"
      "data_length s' = data_length s + length dat" "dst s' = dst s"
      "quality_length s' = quality_length s"
      "kSSS + 2 * kMSS \<le> length (storage s')" "length (storage s') \<le> kSSS + 2 * kLSS"
    and g: "kMSS \<le> data_length s' \<longrightarrow>
              length (storage s') = kSSS + 2 * kLSS \<and> quality s' = kSSS + kLSS"
    and rn: "region (storage s') 0 (name_length s) = region (storage s) 0 (name_length s)"
    and rd: "region (storage s') kSSS (data_length s + length dat) =
             region (storage s) kSSS (data_length s) @ dat"
    by blast
  from f(3) False g dl have g': "length (storage s') = kSSS + 2 * kLSS" "quality s' = kSSS + kLSS"
    by auto
  from lq km have "m \<le> kLSS" by auto
  with g' ld have q: "kSSS + length dat \<le> quality s'" "quality s' + m \<le> length (storage s')"
    by auto
  from rd dl have rd': "region (storage s') kSSS (length dat) = dat"
    by (simp add: region_def)
  show ?thesis
    using sc f g' q rn rd' ln dl ql
    by (intro exI [of _ s']) simp
qed

lemma fastq_group_scan:
  assumes gs: "fastq_group_start s"
    and h: "text_line hdr" "length hdr \<le> kSSS"
    and d: "text_line dat" "length dat \<le> kLSS"
    and p: "CHR 0x0A \<notin> set sep"
    and q: "text_line qual" "length qual \<le> kMSS \<or> (kMSS \<le> length dat \<and> length qual \<le> kLSS)"
  shows "\<exists>s7. scan fastq_byte e
             (hdr @ CHR 0x0A # dat @ CHR 0x0A # sep @ CHR 0x0A # qual @ [CHR 0x0A]) s =
             fastq_complete s7 \<and>
           dst s7 = dst s \<and> line_number s7 = 0 \<and> name_length s7 = length hdr \<and>
           data_length s7 = length dat \<and> quality_length s7 = length qual \<and>
           kSSS + 2 * kMSS \<le> length (storage s7) \<and> length (storage s7) \<le> kSSS + 2 * kLSS \<and>
           (quality s7 = kSSS + kMSS \<or>
            (quality s7 = kSSS + kLSS \<and> length (storage s7) = kSSS + 2 * kLSS)) \<and>
           region (storage s7) 0 (length hdr) = hdr \<and>
           region (storage s7) kSSS (length dat) = dat \<and>
           region (storage s7) (quality s7) (length qual) = qual"
proof -
  let ?nl = "CHR 0x0A"
  let ?st = "storage s"
  from gs have g: "line_number s = 0" "name_length s = 0" "data_length s = 0"
    "quality_length s = 0" "kSSS + 2 * kMSS \<le> length ?st" "length ?st \<le> kSSS + 2 * kLSS"
    "quality s = kSSS + kMSS \<or> (quality s = kSSS + kLSS \<and> length ?st = kSSS + 2 * kLSS)"
    by (simp_all add: fastq_group_start_def)
  from h(1) d(1) q(1) have nl: "?nl \<notin> set hdr" "?nl \<notin> set dat" "?nl \<notin> set qual"
    and hh: "hdr = [] \<or> \<not> isspace (hd hdr)"
    by (auto simp: text_line_def)
  let ?st1 = "hdr @ drop (length hdr) ?st"
  let ?s1 = "s\<lparr>storage := ?st1, name_length := length hdr,
               current_bytes := current_bytes s + length hdr\<rparr>"
  have "scan fastq_byte False hdr s =
     Inr (s\<lparr>storage := take (name_length s) (storage s) @ hdr @
                         drop (name_length s + length hdr) (storage s),
            name_length := name_length s + length hdr,
            current_bytes := current_bytes s + length hdr\<rparr>)"
    using g hh h(2) by (intro fastq_name_run [OF g(1) nl(1)]) simp_all
  then have r1: "scan fastq_byte False hdr s = Inr ?s1"
    by (simp add: g)
  from h(2) g(5) have len1: "length ?st1 = length ?st" by simp
  let ?s2 = "?s1\<lparr>line_number := 1, current_bytes := current_bytes ?s1 + 1\<rparr>"
  have r2: "fastq_byte False ?nl ?s1 = Inr ?s2"
    using fastq_newline_byte [of ?s1] g(1) by simp
  have rn2: "region (storage ?s2) 0 (length hdr) = hdr"
    using region_of_append [of "[]" 0 hdr "drop (length hdr) ?st"] by simp
  have "\<exists>s'. scan fastq_byte False dat ?s2 = Inr s' \<and>
           line_number s' = 1 \<and> name_length s' = name_length ?s2 \<and>
           data_length s' = length dat \<and> dst s' = dst ?s2 \<and> quality_length s' = 0 \<and>
           kSSS + 2 * kMSS \<le> length (storage s') \<and> length (storage s') \<le> kSSS + 2 * kLSS \<and>
           (quality s' = kSSS + kMSS \<or>
            (quality s' = kSSS + kLSS \<and> length (storage s') = kSSS + 2 * kLSS)) \<and>
           kSSS + length dat \<le> quality s' \<and> quality s' + length qual \<le> length (storage s') \<and>
           region (storage s') 0 (name_length ?s2) = region (storage ?s2) 0 (name_length ?s2) \<and>
           region (storage s') kSSS (length dat) = dat"
  proof (rule fastq_data_line [OF _ nl(2)])
    show "line_number ?s2 = 1" by simp
    show "name_length ?s2 \<le> kSSS" using h(2) by simp
    show "data_length ?s2 = 0" using g(3) by simp
    show "quality_length ?s2 = 0" using g(4) by simp
    show "kSSS + 2 * kMSS \<le> length (storage ?s2)" using g(5) len1 by simp
    show "length (storage ?s2) \<le> kSSS + 2 * kLSS" using g(6) len1 by simp
    show "quality ?s2 = kSSS + kMSS \<or>
             (quality ?s2 = kSSS + kLSS \<and> length (storage ?s2) = kSSS + 2 * kLSS)"
      using g(7) len1 by simp
    show "length dat \<le> kLSS" by (rule d(2))
    show "length qual \<le> kMSS \<or> (kMSS \<le> length dat \<and> length qual \<le> kLSS)" by (rule q(2))
  qed
  then obtain s3 where r3: "scan fastq_byte False dat ?s2 = Inr s3"
    and f3: "line_number s3 = 1" "name_length s3 = length hdr" "data_length s3 = length dat"
      "dst s3 = dst s" "quality_length s3 = 0"
      "kSSS + 2 * kMSS \<le> length (storage s3)" "length (storage s3) \<le> kSSS + 2 * kLSS"
      "quality s3 = kSSS + kMSS \<or>
         (quality s3 = kSSS + kLSS \<and> length (storage s3) = kSSS + 2 * kLSS)"
      "kSSS + length dat \<le> quality s3" "quality s3 + length qual \<le> length (storage s3)"
    and rn3: "region (storage s3) 0 (length hdr) = region (storage ?s2) 0 (length hdr)"
    and rd3: "region (storage s3) kSSS (length dat) = dat"
    by auto
  let ?s4 = "s3\<lparr>line_number := 2, current_bytes := current_bytes s3 + 1\<rparr>"
  have r4: "fastq_byte False ?nl s3 = Inr ?s4"
    using fastq_newline_byte [of s3] f3(1) by simp
  let ?s5 = "?s4\<lparr>current_bytes := current_bytes ?s4 + length sep\<rparr>"
  have r5: "scan fastq_byte False sep ?s4 = Inr ?s5"
    by (rule fastq_plus_run [OF _ p]) simp
  let ?s6 = "?s5\<lparr>line_number := 3, current_bytes := current_bytes ?s5 + 1\<rparr>"
  have r6: "fastq_byte False ?nl ?s5 = Inr ?s6"
    using fastq_newline_byte [of ?s5] by simp
  let ?q = "quality s3"
  let ?st7 = "take ?q (storage s3) @ qual @ drop (?q + length qual) (storage s3)"
  let ?s7 = "?s6\<lparr>storage := ?st7, quality_length := length qual,
               current_bytes := current_bytes ?s6 + length qual\<rparr>"
  have "scan fastq_byte False qual ?s6 =
     Inr (?s6\<lparr>storage := take (quality ?s6 + quality_length ?s6) (storage ?s6) @ qual @
                         drop (quality ?s6 + quality_length ?s6 + length qual) (storage ?s6),
            quality_length := quality_length ?s6 + length qual,
            current_bytes := current_bytes ?s6 + length qual\<rparr>)"
    using f3 by (intro fastq_quality_run [OF _ nl(3)]) simp_all
  then have r7: "scan fastq_byte False qual ?s6 = Inr ?s7"
    by (simp add: f3)
  let ?s8 = "?s7\<lparr>line_number := 0, current_bytes := current_bytes ?s7 + 1\<rparr>"
  have r8: "fastq_byte e ?nl ?s7 = fastq_complete ?s8"
    by (rule fastq_last_newline_byte) simp
  have "scan fastq_byte e (hdr @ ?nl # dat @ ?nl # sep @ ?nl # qual @ [?nl]) s =
      scan fastq_byte e (?nl # dat @ ?nl # sep @ ?nl # qual @ [?nl]) ?s1"
    by (rule scan_seq [OF r1]) simp
  also have "\<dots> = scan fastq_byte e (dat @ ?nl # sep @ ?nl # qual @ [?nl]) ?s2"
    by (rule scan_Cons_mid [where step = fastq_byte, OF r2]) simp
  also have "\<dots> = scan fastq_byte e (?nl # sep @ ?nl # qual @ [?nl]) s3"
    by (rule scan_seq [OF r3]) simp
  also have "\<dots> = scan fastq_byte e (sep @ ?nl # qual @ [?nl]) ?s4"
    by (rule scan_Cons_mid [where step = fastq_byte, OF r4]) simp
  also have "\<dots> = scan fastq_byte e (?nl # qual @ [?nl]) ?s5"
    by (rule scan_seq [OF r5]) simp
  also have "\<dots> = scan fastq_byte e (qual @ [?nl]) ?s6"
    by (rule scan_Cons_mid [where step = fastq_byte, OF r6]) simp
  also have "\<dots> = fastq_byte e ?nl ?s7"
    by (rule scan_snoc [OF r7])
  also note r8
  finally have whole: "scan fastq_byte e (hdr @ ?nl # dat @ ?nl # sep @ ?nl # qual @ [?nl]) s =
      fastq_complete ?s8" .
  from f3(10) have tq: "length (take ?q (storage s3)) = ?q" by simp
  from f3(10) have len7: "length ?st7 = length (storage s3)" by simp
  have rq: "region ?st7 ?q (length qual) = qual"
    by (rule region_of_append [OF tq])
  have below: "?st7 ! i = storage s3 ! i" if "i < ?q" for i
    using that tq by (simp add: nth_append)
  have h0: "kSSS \<le> ?q" using f3(9) by simp
  have rn: "region ?st7 0 (length hdr) = hdr"
  proof -
    have "region ?st7 0 (length hdr) = region (storage s3) 0 (length hdr)"
    proof (rule region_cong)
      fix i assume "0 \<le> i" "i < 0 + length hdr"
      with h(2) h0 show "?st7 ! i = storage s3 ! i" by (intro below) simp
    qed
    with rn3 rn2 show ?thesis by simp
  qed
  have rd: "region ?st7 kSSS (length dat) = dat"
  proof -
    have "region ?st7 kSSS (length dat) = region (storage s3) kSSS (length dat)"
    proof (rule region_cong)
      fix i assume "kSSS \<le> i" "i < kSSS + length dat"
      with f3(9) show "?st7 ! i = storage s3 ! i" by (intro below) simp
    qed
    with rd3 show ?thesis by simp
  qed
  show ?thesis
    using whole f3 rn rd rq len7
    by (intro exI [of _ ?s8]) simp
qed

lemma fastq_complete_group:
  assumes t: "text_line hdr" "text_line dat" "text_line qual"
    and l: "name_length s = length hdr" "data_length s = length dat"
      "quality_length s = length qual"
    and r: "region (storage s) 0 (length hdr) = hdr"
      "region (storage s) kSSS (length dat) = dat"
      "region (storage s) (quality s) (length qual) = qual"
  shows "fastq_complete s =
     (if hdr \<noteq> [] \<and> hd hdr = CHR ''@'' \<and> dat \<noteq> [] \<and> qual \<noteq> [] \<and> length dat = length qual
      then Inr (s\<lparr>dst := dst s @ [FastqObject (tl hdr) dat qual],
                  num_objects := num_objects s + 1, current_bytes := 0,
                  name_length := 0, data_length := 0, quality_length := 0\<rparr>)
      else Inl InvalidFormat)"
proof -
  from t have e: "hdr = [] \<or> \<not> isspace (last hdr)" "dat = [] \<or> \<not> isspace (last dat)"
    "qual = [] \<or> \<not> isspace (last qual)"
    by (auto simp: text_line_def)
  have n: "rtrim (storage s) 0 (name_length s) = length hdr"
    unfolding l by (rule rtrim_region [OF r(1) e(1)])
  have d: "rtrim (storage s) kSSS (data_length s) = length dat"
    unfolding l by (rule rtrim_region [OF r(2) e(2)])
  have q: "rtrim (storage s) (quality s) (quality_length s) = length qual"
    unfolding l by (rule rtrim_region [OF r(3) e(3)])
  have h: "storage s ! 0 = hd hdr" if "hdr \<noteq> []"
    using region_hd [of "length hdr" "storage s" 0] that r(1) by simp
  have tlr: "region (storage s) 1 (length hdr - 1) = tl hdr"
    using region_tl [of "storage s" 0 "length hdr"] r(1) by simp
  show ?thesis
  proof (cases "hdr \<noteq> [] \<and> hd hdr = CHR ''@'' \<and> dat \<noteq> [] \<and> qual \<noteq> [] \<and>
      length dat = length qual")
    case True
    then have "\<not> (length hdr = 0 \<or> storage s ! 0 \<noteq> CHR ''@'' \<or> length dat = 0 \<or>
        length qual = 0 \<or> length dat \<noteq> length qual)"
      using h by simp
    then have "fastq_complete s =
        Inr (s\<lparr>dst := dst s @ [FastqObject (tl hdr) dat qual],
                  num_objects := num_objects s + 1, current_bytes := 0,
                  name_length := 0, data_length := 0, quality_length := 0\<rparr>)"
      unfolding fastq_complete_def Let_def n d q tlr r by (simp only: if_False)
    then show ?thesis by (subst if_P [OF True])
  next
    case False
    then have "length hdr = 0 \<or> storage s ! 0 \<noteq> CHR ''@'' \<or> length dat = 0 \<or>
        length qual = 0 \<or> length dat \<noteq> length qual"
      using h by auto
    then have "fastq_complete s = Inl InvalidFormat"
      unfolding fastq_complete_def Let_def n d q by (simp only: if_True)
    then show ?thesis by (subst if_not_P [OF False])
  qed
qed

lemma fastq_group_valid:
  assumes gs: "fastq_group_start s"
    and h: "text_line hdr" "length hdr \<le> kSSS"
    and d: "text_line dat" "length dat \<le> kLSS"
    and p: "CHR 0x0A \<notin> set sep"
    and q: "text_line qual" "length qual \<le> kMSS \<or> (kMSS \<le> length dat \<and> length qual \<le> kLSS)"
    and v: "hdr \<noteq> []" "hd hdr = CHR ''@''" "dat \<noteq> []" "qual \<noteq> []" "length dat = length qual"
  shows "\<exists>s'. scan fastq_byte e
             (hdr @ CHR 0x0A # dat @ CHR 0x0A # sep @ CHR 0x0A # qual @ [CHR 0x0A]) s = Inr s' \<and>
           dst s' = dst s @ [FastqObject (tl hdr) dat qual] \<and> fastq_group_start s'"
proof -
  from fastq_group_scan [OF gs h d p q, of e]
  obtain s7 where w: "scan fastq_byte e
             (hdr @ CHR 0x0A # dat @ CHR 0x0A # sep @ CHR 0x0A # qual @ [CHR 0x0A]) s =
             fastq_complete s7"
    and f: "dst s7 = dst s" "line_number s7 = 0" "name_length s7 = length hdr"
      "data_length s7 = length dat" "quality_length s7 = length qual"
      "kSSS + 2 * kMSS \<le> length (storage s7)" "length (storage s7) \<le> kSSS + 2 * kLSS"
      "quality s7 = kSSS + kMSS \<or>
         (quality s7 = kSSS + kLSS \<and> length (storage s7) = kSSS + 2 * kLSS)"
    and r: "region (storage s7) 0 (length hdr) = hdr"
      "region (storage s7) kSSS (length dat) = dat"
      "region (storage s7) (quality s7) (length qual) = qual"
    by blast
  let ?s' = "s7\<lparr>dst := dst s7 @ [FastqObject (tl hdr) dat qual],
                  num_objects := num_objects s7 + 1, current_bytes := 0,
                  name_length := 0, data_length := 0, quality_length := 0\<rparr>"
  from fastq_complete_group [OF h(1) d(1) q(1) f(3,4,5) r] v
  have c: "fastq_complete s7 = Inr ?s'" by simp
  show ?thesis
    unfolding w c using f by (intro exI [of _ ?s']) (simp add: fastq_group_start_def)
qed

lemma fastq_group_invalid:
  assumes gs: "fastq_group_start s"
    and h: "text_line hdr" "length hdr \<le> kSSS"
    and d: "text_line dat" "length dat \<le> kLSS"
    and p: "CHR 0x0A \<notin> set sep"
    and q: "text_line qual" "length qual \<le> kMSS \<or> (kMSS \<le> length dat \<and> length qual \<le> kLSS)"
    and v: "hdr = [] \<or> hd hdr \<noteq> CHR ''@'' \<or> dat = [] \<or> qual = [] \<or> length dat \<noteq> length qual"
  shows "scan fastq_byte e
           (hdr @ CHR 0x0A # dat @ CHR 0x0A # sep @ CHR 0x0A # qual @ [CHR 0x0A]) s =
         Inl InvalidFormat"
proof -
  from fastq_group_scan [OF gs h d p q, of e]
  obtain s7 where w: "scan fastq_byte e
             (hdr @ CHR 0x0A # dat @ CHR 0x0A # sep @ CHR 0x0A # qual @ [CHR 0x0A]) s =
             fastq_complete s7"
    and f: "name_length s7 = length hdr"
      "data_length s7 = length dat" "quality_length s7 = length qual"
    and r: "region (storage s7) 0 (length hdr) = hdr"
      "region (storage s7) kSSS (length dat) = dat"
      "region (storage s7) (quality s7) (length qual) = qual"
    by blast
  from fastq_complete_group [OF h(1) d(1) q(1) f r] v
  show ?thesis unfolding w by auto
qed

lemma scan_mid_error:
  assumes "scan step False pre s = Inr s0" and "scan step (e \<and> post = []) g s0 = Inl x"
  shows "scan step e (pre @ g @ post) s = Inl x"
proof -
  from assms(2) have g: "g \<noteq> []" by auto
  then have "scan step e (pre @ g @ post) s = scan step e (g @ post) s0"
    by (intro scan_seq [OF assms(1)]) simp
  also have "\<dots> = Inl x"
    using assms(2) by (cases "post = []") (simp_all add: scan_append)
  finally show ?thesis .
qed

lemma parse_objects_error_within:
  assumes "\<not> eof (input_file p)"
    and "max_bytes = 0 \<or> length (remaining (input_file p)) \<le> max_bytes"
    and "remaining (input_file p) = pre @ g @ post"
    and "scan step False pre (init (storage_vec p) dst0) = Inr s0"
    and "scan step (post = [] \<and> length (remaining (input_file p)) mod kBufferSize \<noteq> 0) g s0 =
           Inl x"
  shows "parse_objects step init p dst0 max_bytes = Inl x"
proof -
  from assms(2) have "parse_objects step init p dst0 max_bytes = parse_objects step init p dst0 0"
    using parse_objects_within_budget [of p max_bytes step init dst0] by auto
  moreover have "scan step (length (remaining (input_file p)) mod kBufferSize \<noteq> 0)
      (pre @ g @ post) (init (storage_vec p) dst0) = Inl x"
    using assms(5) by (intro scan_mid_error [OF assms(4)]) (simp add: conj_commute)
  ultimately show ?thesis
    using assms(1,3) by (simp add: parse_objects_unbounded)
qed

lemma parse_objects_error_over:
  assumes "\<not> eof (input_file p)" and "max_bytes \<noteq> 0"
    and "max_bytes < length (remaining (input_file p))"
    and "take (in_budget max_bytes) (remaining (input_file p)) = pre @ g @ post"
    and "scan step False pre (init (storage_vec p) dst0) = Inr s0"
    and "scan step False g s0 = Inl x"
  shows "parse_objects step init p dst0 max_bytes = Inl x"
proof -
  have "scan step False (pre @ g @ post) (init (storage_vec p) dst0) = Inl x"
    using assms(6) by (intro scan_mid_error [OF assms(5)]) simp
  then show ?thesis
    using assms(4) parse_objects_over_budget [OF assms(1,2,3), of step init dst0]
    by (simp add: in_budget_def)
qed

text \<open>
  C3, as the claim states it, fails.  A header line that is the marker \<^verbatim>\<open>'@'\<close> alone passes the
  validation, which looks at the span with the marker, and the record is built with an
  empty name.
\<close>

theorem C3_marker_only_header_counterexample:
  "outcome (FastqParser_parse_objects (FastqParser (fopen ''@\<newline>AC\<newline>+\<newline>II\<newline>'')) [] 0) =
     Inr (False, [FastqObject [] ''AC'' ''II''])"
  by (simp add: fastq_defs)

text \<open>
  C3, amended: in every call, with a budget or without, the records the FASTQ parser
  appends have data and quality that are not empty and equally long; the name span they
  are built from is not empty and starts with \<^verbatim>\<open>'@'\<close>, which is stripped, so that the name
  itself may be empty.  A byte that completes a group whose spans violate one of these
  conditions fails with \<open>InvalidFormat\<close>, and a failure in the bytes a call scans is the
  result of the call: all the bytes left when they fit the budget, the whole reads that
  fit the budget otherwise.  For a group of four lines without white space at their ends,
  read from the start of a group: when the header starts with the marker and data and
  quality are not empty and equally long, the record appended has the header without the
  marker as its name and the second and fourth line as data and quality, the third line
  being ignored; otherwise the scan fails with \<open>InvalidFormat\<close>.
\<close>

theorem C3_fastq_groups_validated:
  "(outcome (FastqParser_parse_objects p dst0 max_bytes) = Inr (status, dst') \<longrightarrow>
      (\<exists>new. dst' = dst0 @ new \<and> (\<forall>r\<in>set new. fastq_well_formed r))) \<and>
   (fastq_complete s = Inr s' \<longrightarrow>
      region (storage s) 0 (rtrim (storage s) 0 (name_length s)) \<noteq> [] \<and>
      hd (region (storage s) 0 (rtrim (storage s) 0 (name_length s))) = CHR ''@'' \<and>
      fastq_well_formed
        (FastqObject (tl (region (storage s) 0 (rtrim (storage s) 0 (name_length s))))
           (region (storage s) kSSS (rtrim (storage s) kSSS (data_length s)))
           (region (storage s) (quality s) (rtrim (storage s) (quality s) (quality_length s)))) \<and>
      dst s' = dst s @
        [FastqObject (tl (region (storage s) 0 (rtrim (storage s) 0 (name_length s))))
           (region (storage s) kSSS (rtrim (storage s) kSSS (data_length s)))
           (region (storage s) (quality s) (rtrim (storage s) (quality s) (quality_length s)))]) \<and>
   (fastq_char at_end c t0 = Inr (t1, True) \<and>
    (region (storage t1) 0 (rtrim (storage t1) 0 (name_length t1)) = [] \<or>
     hd (region (storage t1) 0 (rtrim (storage t1) 0 (name_length t1))) \<noteq> CHR ''@'' \<or>
     \<not> fastq_well_formed
       (FastqObject n
          (region (storage t1) kSSS (rtrim (storage t1) kSSS (data_length t1)))
          (region (storage t1) (quality t1) (rtrim (storage t1) (quality t1) (quality_length t1))))) \<longrightarrow>
      fastq_byte at_end c t0 = Inl InvalidFormat) \<and>
   (\<not> eof (input_file p1) \<and> (m1 = 0 \<or> length (remaining (input_file p1)) \<le> m1) \<and>
    remaining (input_file p1) = pre1 @ g1 @ post1 \<and>
    scan fastq_byte False pre1 (fastq_init (storage_vec p1) d1) = Inr u1 \<and>
    scan fastq_byte (post1 = [] \<and> length (remaining (input_file p1)) mod kBufferSize \<noteq> 0) g1 u1 =
      Inl x1 \<longrightarrow>
      FastqParser_parse_objects p1 d1 m1 = Inl x1) \<and>
   (\<not> eof (input_file p2) \<and> m2 \<noteq> 0 \<and> m2 < length (remaining (input_file p2)) \<and>
    take (in_budget m2) (remaining (input_file p2)) = pre2 @ g2 @ post2 \<and>
    scan fastq_byte False pre2 (fastq_init (storage_vec p2) d2) = Inr u2 \<and>
    scan fastq_byte False g2 u2 = Inl x2 \<longrightarrow>
      FastqParser_parse_objects p2 d2 m2 = Inl x2) \<and>
   (fastq_group_start gs \<and> text_line hdr \<and> length hdr \<le> kSSS \<and>
    text_line dat \<and> length dat \<le> kLSS \<and> CHR 0x0A \<notin> set sep \<and> text_line qual \<and>
    (length qual \<le> kMSS \<or> (kMSS \<le> length dat \<and> length qual \<le> kLSS)) \<longrightarrow>
      (hdr \<noteq> [] \<and> hd hdr = CHR ''@'' \<and> dat \<noteq> [] \<and> qual \<noteq> [] \<and> length dat = length qual \<longrightarrow>
         (\<exists>gs'. scan fastq_byte e
                  (hdr @ CHR 0x0A # dat @ CHR 0x0A # sep @ CHR 0x0A # qual @ [CHR 0x0A]) gs =
                  Inr gs' \<and>
                dst gs' = dst gs @ [FastqObject (tl hdr) dat qual] \<and> fastq_group_start gs')) \<and>
      (hdr = [] \<or> hd hdr \<noteq> CHR ''@'' \<or> dat = [] \<or> qual = [] \<or> length dat \<noteq> length qual \<longrightarrow>
         scan fastq_byte e
           (hdr @ CHR 0x0A # dat @ CHR 0x0A # sep @ CHR 0x0A # qual @ [CHR 0x0A]) gs =
           Inl InvalidFormat))"
proof (intro conjI impI)
  assume "outcome (FastqParser_parse_objects p dst0 max_bytes) = Inr (status, dst')"
  then show "\<exists>new. dst' = dst0 @ new \<and> (\<forall>r\<in>set new. fastq_well_formed r)"
    by (rule fastq_parse_objects_dst)
next
  assume a: "fastq_complete s = Inr s'"
  note f = fastq_complete_Inr_fields [OF a]
  from f show "region (storage s) 0 (rtrim (storage s) 0 (name_length s)) \<noteq> []" by blast
  from f show "hd (region (storage s) 0 (rtrim (storage s) 0 (name_length s))) = CHR ''@''"
    by blast
  from f show "fastq_well_formed
        (FastqObject (tl (region (storage s) 0 (rtrim (storage s) 0 (name_length s))))
           (region (storage s) kSSS (rtrim (storage s) kSSS (data_length s)))
           (region (storage s) (quality s) (rtrim (storage s) (quality s) (quality_length s))))"
    by blast
  from f show "dst s' = dst s @
        [FastqObject (tl (region (storage s) 0 (rtrim (storage s) 0 (name_length s))))
           (region (storage s) kSSS (rtrim (storage s) kSSS (data_length s)))
           (region (storage s) (quality s) (rtrim (storage s) (quality s) (quality_length s)))]"
    by blast
next
  let ?t2 = "t1\<lparr>current_bytes := current_bytes t1 + 1\<rparr>"
  assume a: "fastq_char at_end c t0 = Inr (t1, True) \<and>
    (region (storage t1) 0 (rtrim (storage t1) 0 (name_length t1)) = [] \<or>
     hd (region (storage t1) 0 (rtrim (storage t1) 0 (name_length t1))) \<noteq> CHR ''@'' \<or>
     \<not> fastq_well_formed
       (FastqObject n
          (region (storage t1) kSSS (rtrim (storage t1) kSSS (data_length t1)))
          (region (storage t1) (quality t1) (rtrim (storage t1) (quality t1) (quality_length t1)))))"
  then have q4: "fastq_char at_end c t0 = Inr (t1, True)"
    and q5: "region (storage t1) 0 (rtrim (storage t1) 0 (name_length t1)) = [] \<or>
     hd (region (storage t1) 0 (rtrim (storage t1) 0 (name_length t1))) \<noteq> CHR ''@'' \<or>
     \<not> fastq_well_formed
       (FastqObject n
          (region (storage t1) kSSS (rtrim (storage t1) kSSS (data_length t1)))
          (region (storage t1) (quality t1) (rtrim (storage t1) (quality t1) (quality_length t1))))"
    by blast+
  from q5 have "fastq_complete ?t2 = Inl InvalidFormat"
    by (intro fastq_complete_Inl [where n = n]) simp
  then show "fastq_byte at_end c t0 = Inl InvalidFormat"
    unfolding fastq_byte_completes [OF q4] .
next
  assume "\<not> eof (input_file p1) \<and> (m1 = 0 \<or> length (remaining (input_file p1)) \<le> m1) \<and>
    remaining (input_file p1) = pre1 @ g1 @ post1 \<and>
    scan fastq_byte False pre1 (fastq_init (storage_vec p1) d1) = Inr u1 \<and>
    scan fastq_byte (post1 = [] \<and> length (remaining (input_file p1)) mod kBufferSize \<noteq> 0) g1 u1 =
      Inl x1"
  then show "FastqParser_parse_objects p1 d1 m1 = Inl x1"
    unfolding FastqParser_parse_objects_def
    by (intro parse_objects_error_within [where pre = pre1 and g = g1 and post = post1 and ?s0.0 = u1])
       blast+
next
  assume "\<not> eof (input_file p2) \<and> m2 \<noteq> 0 \<and> m2 < length (remaining (input_file p2)) \<and>
    take (in_budget m2) (remaining (input_file p2)) = pre2 @ g2 @ post2 \<and>
    scan fastq_byte False pre2 (fastq_init (storage_vec p2) d2) = Inr u2 \<and>
    scan fastq_byte False g2 u2 = Inl x2"
  then show "FastqParser_parse_objects p2 d2 m2 = Inl x2"
    unfolding FastqParser_parse_objects_def
    by (intro parse_objects_error_over [where pre = pre2 and g = g2 and post = post2 and ?s0.0 = u2])
       blast+
next
  assume a: "fastq_group_start gs \<and> text_line hdr \<and> length hdr \<le> kSSS \<and>
    text_line dat \<and> length dat \<le> kLSS \<and> CHR 0x0A \<notin> set sep \<and> text_line qual \<and>
    (length qual \<le> kMSS \<or> (kMSS \<le> length dat \<and> length qual \<le> kLSS))"
    and v: "hdr \<noteq> [] \<and> hd hdr = CHR ''@'' \<and> dat \<noteq> [] \<and> qual \<noteq> [] \<and> length dat = length qual"
  then show "\<exists>gs'. scan fastq_byte e
                  (hdr @ CHR 0x0A # dat @ CHR 0x0A # sep @ CHR 0x0A # qual @ [CHR 0x0A]) gs =
                  Inr gs' \<and>
                dst gs' = dst gs @ [FastqObject (tl hdr) dat qual] \<and> fastq_group_start gs'"
    by (intro fastq_group_valid) blast+
next
  assume a: "fastq_group_start gs \<and> text_line hdr \<and> length hdr \<le> kSSS \<and>
    text_line dat \<and> length dat \<le> kLSS \<and> CHR 0x0A \<notin> set sep \<and> text_line qual \<and>
    (length qual \<le> kMSS \<or> (kMSS \<le> length dat \<and> length qual \<le> kLSS))"
    and v: "hdr = [] \<or> hd hdr \<noteq> CHR ''@'' \<or> dat = [] \<or> qual = [] \<or> length dat \<noteq> length qual"
  then show "scan fastq_byte e
           (hdr @ CHR 0x0A # dat @ CHR 0x0A # sep @ CHR 0x0A # qual @ [CHR 0x0A]) gs =
           Inl InvalidFormat"
    by (intro fastq_group_invalid) blast+
qed

theorem C3_fastq_groups_validated_witness:
  "(outcome (FastqParser_parse_objects
       (FastqParser (fopen ''@a\<newline>AC\<newline>+\<newline>II\<newline>'')) [] 0) =
      Inr (False, [FastqObject ''a'' ''AC'' ''II'']) \<and>
    fastq_well_formed (FastqObject ''a'' ''AC'' ''II'')) \<and>
   fastq_complete
      \<lparr>storage = (replicate (kSSS + 2 * kMSS) (CHR 0x00))
          [0 := CHR ''@'', 1 := CHR ''a'', 1024 := CHR ''A'', 1025 := CHR ''C'',
           8389632 := CHR ''I'', 8389633 := CHR ''I''],
       dst = [], current_bytes = 12, num_objects = 0, line_number = 0, name_length = 2,
       data_length = 2, quality = 8389632, quality_length = 2\<rparr> =
    Inr \<lparr>storage = (replicate (kSSS + 2 * kMSS) (CHR 0x00))
          [0 := CHR ''@'', 1 := CHR ''a'', 1024 := CHR ''A'', 1025 := CHR ''C'',
           8389632 := CHR ''I'', 8389633 := CHR ''I''],
       dst = [FastqObject ''a'' ''AC'' ''II''], current_bytes = 0, num_objects = 1,
       line_number = 0, name_length = 0, data_length = 0, quality = 8389632,
       quality_length = 0\<rparr> \<and>
   fastq_byte False (CHR 0x0A)
      \<lparr>storage = (replicate (kSSS + 2 * kMSS) (CHR 0x00))
          [0 := CHR ''@'', 1 := CHR ''a'', 1024 := CHR ''A'', 1025 := CHR ''C'',
           8389632 := CHR ''I''],
       dst = [], current_bytes = 9, num_objects = 0, line_number = 3, name_length = 2,
       data_length = 2, quality = 8389632, quality_length = 1\<rparr> =
     (Inl InvalidFormat :: error + fastq_object fastq_locals) \<and>
   FastqParser_parse_objects (FastqParser (fopen ''@a\<newline>AC\<newline>+\<newline>I\<newline>'')) [] 100 =
     Inl InvalidFormat \<and>
   FastqParser_parse_objects
     (FastqParser (fopen (''@a\<newline>AC\<newline>+\<newline>I\<newline>'' @ replicate 65536 (CHR ''A'')))) [] 65536 =
     Inl InvalidFormat \<and>
   (\<exists>gs'. scan fastq_byte True
        (''@'' @ CHR 0x0A # ''AC'' @ CHR 0x0A # ''+'' @ CHR 0x0A # ''II'' @ [CHR 0x0A])
        (fastq_init (replicate (kSSS + 2 * kMSS) (CHR 0x00)) []) = Inr gs' \<and>
      dst gs' = [FastqObject [] ''AC'' ''II'']) \<and>
   scan fastq_byte True
     (''@a'' @ CHR 0x0A # ''AC'' @ CHR 0x0A # ''+'' @ CHR 0x0A # ''I'' @ [CHR 0x0A])
     (fastq_init (replicate (kSSS + 2 * kMSS) (CHR 0x00)) ([] :: fastq_object list)) =
     Inl InvalidFormat"
proof -
  let ?PA = "FastqParser (fopen ''@a\<newline>AC\<newline>+\<newline>II\<newline>'')"
  let ?S = "\<lparr>storage = (replicate (kSSS + 2 * kMSS) (CHR 0x00))
          [0 := CHR ''@'', 1 := CHR ''a'', 1024 := CHR ''A'', 1025 := CHR ''C'',
           8389632 := CHR ''I'', 8389633 := CHR ''I''],
       dst = [], current_bytes = 12, num_objects = 0, line_number = 0, name_length = 2,
       data_length = 2, quality = 8389632, quality_length = 2\<rparr> :: fastq_object fastq_locals"
  let ?S' = "\<lparr>storage = (replicate (kSSS + 2 * kMSS) (CHR 0x00))
          [0 := CHR ''@'', 1 := CHR ''a'', 1024 := CHR ''A'', 1025 := CHR ''C'',
           8389632 := CHR ''I'', 8389633 := CHR ''I''],
       dst = [FastqObject ''a'' ''AC'' ''II''], current_bytes = 0, num_objects = 1,
       line_number = 0, name_length = 0, data_length = 0, quality = 8389632,
       quality_length = 0\<rparr> :: fastq_object fastq_locals"
  let ?T0 = "\<lparr>storage = (replicate (kSSS + 2 * kMSS) (CHR 0x00))
          [0 := CHR ''@'', 1 := CHR ''a'', 1024 := CHR ''A'', 1025 := CHR ''C'',
           8389632 := CHR ''I''],
       dst = [], current_bytes = 9, num_objects = 0, line_number = 3, name_length = 2,
       data_length = 2, quality = 8389632, quality_length = 1\<rparr> :: fastq_object fastq_locals"
  let ?T1 = "\<lparr>storage = (replicate (kSSS + 2 * kMSS) (CHR 0x00))
          [0 := CHR ''@'', 1 := CHR ''a'', 1024 := CHR ''A'', 1025 := CHR ''C'',
           8389632 := CHR ''I''],
       dst = [], current_bytes = 9, num_objects = 0, line_number = 0, name_length = 2,
       data_length = 2, quality = 8389632, quality_length = 1\<rparr> :: fastq_object fastq_locals"
  let ?P1 = "FastqParser (fopen ''@a\<newline>AC\<newline>+\<newline>I\<newline>'')"
  let ?P2 = "FastqParser (fopen (''@a\<newline>AC\<newline>+\<newline>I\<newline>'' @ replicate 65536 (CHR ''A'')))"
  let ?I = "fastq_init (replicate (kSSS + 2 * kMSS) (CHR 0x00)) ([] :: fastq_object list)"
  note T = C3_fastq_groups_validated
    [where p = ?PA and ?dst0.0 = "[]" and max_bytes = 0 and status = False
       and dst' = "[FastqObject ''a'' ''AC'' ''II'']"
       and s = ?S and s' = ?S'
       and at_end = False and c = "CHR 0x0A" and ?t0.0 = ?T0 and ?t1.0 = ?T1 and n = "''a''"
       and ?p1.0 = ?P1 and ?m1.0 = 100 and ?d1.0 = "[]" and ?pre1.0 = "''@a\<newline>AC\<newline>+\<newline>I''"
       and ?g1.0 = "[CHR 0x0A]" and ?post1.0 = "[]" and ?u1.0 = ?T0 and ?x1.0 = InvalidFormat
       and ?p2.0 = ?P2 and ?m2.0 = 65536 and ?d2.0 = "[]" and ?pre2.0 = "''@a\<newline>AC\<newline>+\<newline>I''"
       and ?g2.0 = "[CHR 0x0A]" and ?post2.0 = "replicate 65526 (CHR ''A'')" and ?u2.0 = ?T0
       and ?x2.0 = InvalidFormat
       and gs = ?I and sep = "''+''" and dat = "''AC''" and e = True]
  note TA = T [where hdr = "''@''" and qual = "''II''", THEN conjunct1, rule_format]
  note TS = T [where hdr = "''@''" and qual = "''II''", THEN conjunct2, THEN conjunct1, rule_format]
  note TF = T [where hdr = "''@''" and qual = "''II''", THEN conjunct2, THEN conjunct2,
      THEN conjunct1, rule_format]
  note TB = T [where hdr = "''@''" and qual = "''II''", THEN conjunct2, THEN conjunct2,
      THEN conjunct2, THEN conjunct1, rule_format]
  note TC = T [where hdr = "''@''" and qual = "''II''", THEN conjunct2, THEN conjunct2,
      THEN conjunct2, THEN conjunct2, THEN conjunct1, rule_format]
  note TD = T [where hdr = "''@''" and qual = "''II''", THEN conjunct2, THEN conjunct2,
      THEN conjunct2, THEN conjunct2, THEN conjunct2, rule_format]
  note TE = T [where hdr = "''@a''" and qual = "''I''", THEN conjunct2, THEN conjunct2,
      THEN conjunct2, THEN conjunct2, THEN conjunct2, rule_format]
  have a1: "outcome (FastqParser_parse_objects ?PA [] 0) =
      Inr (False, [FastqObject ''a'' ''AC'' ''II''])"
    by (simp add: fastq_defs)
  from TA [OF a1] have a2: "fastq_well_formed (FastqObject ''a'' ''AC'' ''II'')"
    by auto
  have s1: "fastq_complete ?S = Inr ?S'"
    by (simp add: fastq_defs)
  have f1: "fastq_char False (CHR 0x0A) ?T0 = Inr (?T1, True)"
    by (simp add: fastq_char_def Let_def)
  have f2: "\<not> fastq_well_formed
       (FastqObject ''a''
          (region (storage ?T1) kSSS (rtrim (storage ?T1) kSSS (data_length ?T1)))
          (region (storage ?T1) (quality ?T1)
             (rtrim (storage ?T1) (quality ?T1) (quality_length ?T1))))"
    by (simp add: fastq_well_formed_def storage_defs constants_defs)
  have F: "fastq_byte False (CHR 0x0A) ?T0 = Inl InvalidFormat"
    by (rule TF) (intro conjI disjI2 f1 f2)
  have sc: "scan fastq_byte False ''@a\<newline>AC\<newline>+\<newline>I''
      (fastq_init (replicate (kSSS + 2 * kMSS) (CHR 0x00)) []) = Inr ?T0"
    by (simp add: fastq_defs fastq_init_def)
  have last: "fastq_byte a (CHR 0x0A) ?T0 = Inl InvalidFormat" for a
    by (simp add: fastq_defs)
  have b1: "\<not> eof (input_file ?P1)"
    and b2: "(100::nat) = 0 \<or> length (remaining (input_file ?P1)) \<le> 100"
    and b3: "remaining (input_file ?P1) = ''@a\<newline>AC\<newline>+\<newline>I'' @ [CHR 0x0A] @ []"
    and b4: "scan fastq_byte False ''@a\<newline>AC\<newline>+\<newline>I''
      (fastq_init (storage_vec ?P1) []) = Inr ?T0"
    using sc by (simp_all add: FastqParser_def Parser_def fopen_def remaining_def)
  have b5: "scan fastq_byte ([] = ([] :: char list) \<and>
        length (remaining (input_file ?P1)) mod kBufferSize \<noteq> 0) [CHR 0x0A] ?T0 =
      Inl InvalidFormat"
    by (simp only: scan.simps last sum.case)
  have B: "FastqParser_parse_objects ?P1 [] 100 = Inl InvalidFormat"
    by (rule TB) (intro conjI b1 b2 b3 b4 b5)
  have c1: "\<not> eof (input_file ?P2)" and c2: "(65536::nat) \<noteq> 0"
    and c3: "65536 < length (remaining (input_file ?P2))"
    and c4: "take (in_budget 65536) (remaining (input_file ?P2)) =
        ''@a\<newline>AC\<newline>+\<newline>I'' @ [CHR 0x0A] @ replicate 65526 (CHR ''A'')"
    and c5: "scan fastq_byte False ''@a\<newline>AC\<newline>+\<newline>I''
      (fastq_init (storage_vec ?P2) []) = Inr ?T0"
    using sc
    by (simp_all add: FastqParser_def Parser_def fopen_def remaining_def in_budget_def
        kBufferSize_def)
  have c6: "scan fastq_byte False [CHR 0x0A] ?T0 = Inl InvalidFormat"
    by (simp only: scan.simps last sum.case)
  have C: "FastqParser_parse_objects ?P2 [] 65536 = Inl InvalidFormat"
    by (rule TC) (intro conjI c1 c2 c3 c4 c5 c6)
  have g0: "fastq_group_start ?I"
    by (simp add: fastq_group_start_def fastq_init_def constants_defs)
  have tl: "text_line ''@''" "text_line ''@a''" "text_line ''AC''" "text_line ''II''"
    "text_line ''I''" "CHR 0x0A \<notin> set ''+''"
    by (simp_all add: text_line_def isspace_def)
  have ln: "length ''@'' \<le> kSSS" "length ''@a'' \<le> kSSS" "length ''AC'' \<le> kLSS"
    "length ''II'' \<le> kMSS \<or> (kMSS \<le> length ''AC'' \<and> length ''II'' \<le> kLSS)"
    "length ''I'' \<le> kMSS \<or> (kMSS \<le> length ''AC'' \<and> length ''I'' \<le> kLSS)"
    by (simp_all add: constants_defs)
  have dv: "''@'' \<noteq> [] \<and> hd ''@'' = CHR ''@'' \<and> ''AC'' \<noteq> [] \<and> ''II'' \<noteq> [] \<and>
      length ''AC'' = length ''II''"
    by simp
  have ev: "''@a'' = [] \<or> hd ''@a'' \<noteq> CHR ''@'' \<or> ''AC'' = [] \<or> ''I'' = [] \<or>
      length ''AC'' \<noteq> length ''I''"
    by simp
  have "\<exists>gs'. scan fastq_byte True
        (''@'' @ CHR 0x0A # ''AC'' @ CHR 0x0A # ''+'' @ CHR 0x0A # ''II'' @ [CHR 0x0A]) ?I = Inr gs' \<and>
      dst gs' = dst ?I @ [FastqObject (tl ''@'') ''AC'' ''II''] \<and> fastq_group_start gs'"
    by (rule TD [THEN conjunct1, rule_format])
       (intro conjI g0 tl(1) tl(3) tl(4) tl(6) ln(1) ln(3) ln(4), rule dv)
  then obtain gs' where d1: "scan fastq_byte True
        (''@'' @ CHR 0x0A # ''AC'' @ CHR 0x0A # ''+'' @ CHR 0x0A # ''II'' @ [CHR 0x0A]) ?I = Inr gs'"
    and d2: "dst gs' = dst ?I @ [FastqObject (tl ''@'') ''AC'' ''II'']"
    by blast
  from d2 have d3: "dst gs' = [FastqObject [] ''AC'' ''II'']"
    by (simp add: fastq_init_def)
  from d1 d3 have D: "\<exists>gs'. scan fastq_byte True
        (''@'' @ CHR 0x0A # ''AC'' @ CHR 0x0A # ''+'' @ CHR 0x0A # ''II'' @ [CHR 0x0A]) ?I = Inr gs' \<and>
      dst gs' = [FastqObject [] ''AC'' ''II'']"
    by blast
  have E: "scan fastq_byte True
     (''@a'' @ CHR 0x0A # ''AC'' @ CHR 0x0A # ''+'' @ CHR 0x0A # ''I'' @ [CHR 0x0A]) ?I =
     Inl InvalidFormat"
    by (rule TE [THEN conjunct2, rule_format])
       (intro conjI g0 tl(2) tl(3) tl(5) tl(6) ln(2) ln(3) ln(5), rule ev)
  show ?thesis
    by (intro conjI a1 a2 s1 F B C D E)
qed

section \<open>Twelve fields of a line\<close>


















end
